theory Spec2Isabelle
  imports Main "HOL-Library.Sublist"
begin

section \<open>The client library: \<open>packages/common/lib/api.ts\<close>\<close>

subsection \<open>ApiError\<close>

text \<open>
  \<open>data?: any\<close> is opaque to the class; it is kept as the text of the value,
  \<open>None\<close> for \<open>undefined\<close>.
\<close>

type_synonym any = string

text \<open>
  An \<open>ApiError\<close> object. \<open>code\<close> and \<open>data\<close> are the fields the constructor assigns.
  \<open>own_message\<close> is the object's own data property \<open>message\<close>: the built-in
  \<open>Error(message)\<close> constructor, reached by \<open>super(message)\<close>, defines it on the new
  object when (and only when) the argument is not \<open>undefined\<close>
  (ECMAScript, Error constructor, step 3: CreateNonEnumerableDataPropertyOrThrow).
\<close>

record ApiError =
  code :: string
  data :: "any option"
  own_message :: "string option"

text \<open>\<open>Error.prototype.message\<close> is the empty string.\<close>

definition Error_prototype_message :: string where
  "Error_prototype_message = []"

text \<open>\<open>constructor(code, message?, data?) { super(message); this.code = code; this.data = data }\<close>\<close>

definition new_ApiError :: "string \<Rightarrow> string option \<Rightarrow> any option \<Rightarrow> ApiError" where
  "new_ApiError c message d = \<lparr>code = c, data = d, own_message = message\<rparr>"

text \<open>
  The accessor \<open>get message() { return this.code + super.message }\<close> on
  \<open>ApiError.prototype\<close>. \<open>super.message\<close> is looked up from \<open>Error.prototype\<close> on.
\<close>

definition message_getter :: "ApiError \<Rightarrow> string" where
  "message_getter this = code this @ Error_prototype_message"

text \<open>
  Reading \<open>e.message\<close>: an own property is found before the prototype chain is
  searched, so the accessor runs only for an object without an own \<open>message\<close>.
\<close>

definition message :: "ApiError \<Rightarrow> string" where
  "message this = (case own_message this of Some m \<Rightarrow> m | None \<Rightarrow> message_getter this)"

text \<open>\<open>toString() { return `${this.code} ${this.message}` }\<close>\<close>

definition toString :: "ApiError \<Rightarrow> string" where
  "toString this = code this @ '' '' @ message this"

text \<open>The client wire error \<open>{code, message, data}\<close>, the object \<open>toJSON()\<close> builds.\<close>

record WireError =
  wire_code :: string
  wire_message :: string
  wire_data :: "any option"

definition toJSON :: "ApiError \<Rightarrow> WireError" where
  "toJSON this = \<lparr>wire_code = code this, wire_message = message this, wire_data = data this\<rparr>"

subsection \<open>BaseClient.stream\<close>

text \<open>
  The sources \<open>stream\<close> accepts (\<open>Blob | ArrayBuffer | ReadableStream\<close>). A \<open>File\<close> is
  a \<open>Blob\<close> with a name. \<open>Blob size type\<close>, \<open>File size type name\<close>,
  \<open>ArrayBuffer byteLength\<close>.
\<close>

datatype source =
    Blob nat string
  | File nat string string
  | ArrayBuffer nat
  | ReadableStream

text \<open>
  \<open>Partial<StreamMetadata>\<close>: the three properties \<open>stream\<close> reads or writes, each
  possibly \<open>undefined\<close>. (\<open>type\<close> and \<open>size\<close> carry a suffix: the plain names are taken.)
\<close>

record StreamMetadata =
  filename :: "string option"
  type_m :: "string option"
  size_m :: "nat option"

text \<open>
  \<open>new UpStream(id, metadata, source)\<close>. The class is declared in \<open>./streams\<close>, which is
  not among the sources; the object is taken to keep its three arguments.
\<close>

record UpStream =
  id_s :: nat
  metadata_s :: StreamMetadata
  source_s :: source

typedecl DownStream

text \<open>\<open>protected streams = { up: new Map(), down: new Map(), streamId: 0 }\<close>\<close>

record client_streams =
  up :: "nat \<rightharpoonup> UpStream"
  down :: "nat \<rightharpoonup> DownStream"
  streamId :: nat

record BaseClient =
  streams :: client_streams

definition new_BaseClient :: BaseClient where
  "new_BaseClient = \<lparr>streams = \<lparr>up = Map.empty, down = Map.empty, streamId = 0\<rparr>\<rparr>"

datatype js_error = Error string

text \<open>\<open>!metadata.filename\<close> and \<open>!metadata.size\<close>: \<open>undefined\<close>, the empty string and 0 are falsy.\<close>

definition falsy_string :: "string option \<Rightarrow> bool" where
  "falsy_string s = (case s of None \<Rightarrow> True | Some t \<Rightarrow> t = [])"

definition falsy_number :: "nat option \<Rightarrow> bool" where
  "falsy_number n = (case n of None \<Rightarrow> True | Some k \<Rightarrow> k = 0)"

text \<open>
  \<open>++this.streams.streamId\<close>. The counter is a JavaScript number, an IEEE double: the
  increment is exact below \<open>2^53\<close>, and \<open>2^53 + 1\<close> rounds back to \<open>2^53\<close>. Starting
  from 0, the counter takes no value above \<open>2^53\<close>.
\<close>

definition js_increment :: "nat \<Rightarrow> nat" where
  "js_increment n = (if n < 2 ^ 53 then n + 1 else n)"

text \<open>
  The first statement of \<open>stream\<close>:
  \<open>if (source instanceof File && !metadata.filename) metadata.type = source.type\<close>.
\<close>

definition file_type :: "source \<Rightarrow> StreamMetadata \<Rightarrow> StreamMetadata" where
  "file_type src metadata =
     (case src of
        File sz ty nm \<Rightarrow> if falsy_string (filename metadata) then metadata\<lparr>type_m := Some ty\<rparr> else metadata
      | _ \<Rightarrow> metadata)"

text \<open>
  The second statement: when \<open>metadata.size\<close> is falsy the size is taken from a \<open>Blob\<close>
  (a \<open>File\<close> is one) or an \<open>ArrayBuffer\<close>, and a \<open>ReadableStream\<close> throws.
\<close>

definition infer_size :: "source \<Rightarrow> StreamMetadata \<Rightarrow> js_error + StreamMetadata" where
  "infer_size src metadata =
     (if falsy_number (size_m metadata) then
        (case src of
           Blob sz ty \<Rightarrow> Inr (metadata\<lparr>size_m := Some sz\<rparr>)
         | File sz ty nm \<Rightarrow> Inr (metadata\<lparr>size_m := Some sz\<rparr>)
         | ArrayBuffer byteLength \<Rightarrow> Inr (metadata\<lparr>size_m := Some byteLength\<rparr>)
         | ReadableStream \<Rightarrow> Inl (Error ''Size is required for ReadableStream''))
      else Inr metadata)"

text \<open>
  \<open>stream(source, metadata)\<close>. The result pairs what the call returns (\<open>Inl\<close>: the
  error thrown) with the client after the call.
\<close>

definition stream :: "BaseClient \<Rightarrow> source \<Rightarrow> StreamMetadata \<Rightarrow> (js_error + UpStream) \<times> BaseClient" where
  "stream this src metadata =
     (case infer_size src (file_type src metadata) of
        Inl e \<Rightarrow> (Inl e, this)
      | Inr md \<Rightarrow>
          (let i = js_increment (streamId (streams this));
               s = \<lparr>id_s = i, metadata_s = md, source_s = src\<rparr>
           in (Inr s,
               this\<lparr>streams := (streams this)\<lparr>streamId := i, up := (up (streams this))(i \<mapsto> s)\<rparr>\<rparr>)))"

text \<open>A sequence of \<open>stream\<close> calls on one client, with the result of each call.\<close>

fun stream_calls :: "BaseClient \<Rightarrow> (source \<times> StreamMetadata) list \<Rightarrow> (js_error + UpStream) list \<times> BaseClient" where
  "stream_calls this [] = ([], this)"
| "stream_calls this ((src, metadata) # calls) =
     (case stream this src metadata of
        (r, this') \<Rightarrow> (case stream_calls this' calls of (rs, this'') \<Rightarrow> (r # rs, this'')))"

text \<open>The ids of the streams the successful calls returned, in call order.\<close>

fun allocated_ids :: "(js_error + UpStream) list \<Rightarrow> nat list" where
  "allocated_ids [] = []"
| "allocated_ids (Inl e # rs) = allocated_ids rs"
| "allocated_ids (Inr s # rs) = id_s s # allocated_ids rs"

section \<open>The worker runtime: \<open>Application\<close>\<close>

text \<open>
  The class \<open>Application\<close> is the second module in \<open>packages/common/lib/api.ts\<close>. Its
  collaborators (registry, hook engine, container, transports) are declared in modules
  that are not among the sources.
\<close>

text \<open>
  What an asynchronous method call comes to: its promise resolves, rejects with an
  error, or is never settled. Each outcome carries the state of the object at that point.
\<close>

datatype ('e, 's) promise = Resolved 's | Rejected 'e 's | Pending 's

text \<open>\<open>await p\<close> followed by the rest of an async function body.\<close>

definition await :: "('e, 's) promise \<Rightarrow> ('s \<Rightarrow> ('e, 's) promise) \<Rightarrow> ('e, 's) promise" where
  "await p rest = (case p of Resolved s \<Rightarrow> rest s | Rejected e s \<Rightarrow> Rejected e s | Pending s \<Rightarrow> Pending s)"

fun state_of :: "('e, 's) promise \<Rightarrow> 's" where
  "state_of (Resolved s) = s"
| "state_of (Rejected e s) = s"
| "state_of (Pending s) = s"

text \<open>
  Modelled from the spec: the enumerations \<open>WorkerType\<close> and \<open>Hook\<close> of
  \<open>./constants\<close>, which is not among the sources: the two worker types, and the closed
  set of hook kinds.
\<close>

datatype WorkerType = Api | Task

datatype Hook =
    BeforeInitialize | AfterInitialize
  | BeforeStart | AfterStart
  | BeforeStop | AfterStop
  | BeforeTerminate | AfterTerminate
  | OnConnection | OnDisconnection

text \<open>
  A registered hook function is user code. The model keeps its identity and whether
  calling it fails; what else it does is outside the runtime.
\<close>

record callback =
  cb_id :: nat
  cb_throws :: bool

text \<open>
  A transport is an external collaborator: its identity, and whether the promise of its
  \<open>start()\<close> and of its \<open>stop()\<close> rejects.
\<close>

record transport =
  tr_id :: nat
  start_rejects :: bool
  stop_rejects :: bool

text \<open>
  The namespace of a command: \<open>APP_COMMAND\<close> (a constant of \<open>./registry\<close>) for the
  application's own commands, or the name of an extension.
\<close>

datatype namespace = APP_COMMAND | Extension string

text \<open>
  The registry, as far as \<open>Application\<close> uses it: the hook bindings of each kind in
  registration order, and the registered commands (namespace, name).
\<close>

record Registry =
  hooks :: "Hook \<Rightarrow> callback list"
  commands :: "(namespace \<times> string) list"

text \<open>
  The errors a lifecycle method can reject with, by origin. \<open>InvalidState\<close> is the
  lifecycle error of the specification's taxonomy.
\<close>

datatype app_error =
    HookError Hook nat
  | RegistryLoadError string
  | ContainerLoadError string
  | InvalidState

text \<open>What the application does to its collaborators, in the order it does it.\<close>

datatype event =
    HookCalled Hook nat
  | HookFailureLogged Hook nat
  | TransportStart nat
  | TransportStop nat
  | LoggerError string
  | RegisterCommand namespace string
  | RegistryLoad
  | ContainerLoad
  | ContainerDispose
  | DisposerCalled nat
  | RegistryClear

text \<open>
  The application: \<open>options.type\<close>, the set of transports (in insertion order), the
  registry, the global container (the providers it holds an instance of, in resolution
  order) and the trace of events so far.
\<close>

record Application =
  options_type :: WorkerType
  transports :: "transport list"
  registry :: Registry
  container :: "nat list"
  trace :: "event list"

text \<open>
  \<open>Registry.clear\<close>, \<open>Registry.load\<close> and \<open>Container.load\<close> are not among the
  sources and the specification does not say what they leave behind. They are
  parameters of the model: each maps the component's state to its new state, and a load may
  fail with a message.
\<close>

record collaborators =
  registry_clear :: "Registry \<Rightarrow> Registry"
  registry_load :: "Registry \<Rightarrow> string + Registry"
  container_load :: "nat list \<Rightarrow> string + nat list"

definition emit :: "event \<Rightarrow> Application \<Rightarrow> Application" where
  "emit e a = a\<lparr>trace := trace a @ [e]\<rparr>"

text \<open>
  Modelled from the spec: \<open>Hooks.call\<close> in sequential mode (\<open>concurrent: false\<close>); the hook
  engine is not among the sources. The bindings are invoked one after the other,
  each awaited before the next. For the \<open>*Initialize\<close> and \<open>*Start\<close> kinds the first
  failure aborts and propagates to the caller; for the other kinds a failure is logged and
  the remaining bindings still run.
\<close>

fun start_sensitive :: "Hook \<Rightarrow> bool" where
  "start_sensitive BeforeInitialize = True"
| "start_sensitive AfterInitialize = True"
| "start_sensitive BeforeStart = True"
| "start_sensitive AfterStart = True"
| "start_sensitive k = False"

fun call_sequential :: "Hook \<Rightarrow> callback list \<Rightarrow> Application \<Rightarrow> (app_error, Application) promise" where
  "call_sequential k [] a = Resolved a"
| "call_sequential k (cb # cbs) a =
     (if cb_throws cb then
        (if start_sensitive k then Rejected (HookError k (cb_id cb)) (emit (HookCalled k (cb_id cb)) a)
         else call_sequential k cbs (emit (HookFailureLogged k (cb_id cb)) (emit (HookCalled k (cb_id cb)) a)))
      else call_sequential k cbs (emit (HookCalled k (cb_id cb)) a))"

text \<open>\<open>this.registry.hooks.call(kind, { concurrent: false, reverse })\<close>\<close>

definition hooks_call :: "Hook \<Rightarrow> bool \<Rightarrow> Application \<Rightarrow> (app_error, Application) promise" where
  "hooks_call k reverse a =
     call_sequential k (if reverse then rev (hooks (registry a) k) else hooks (registry a) k) a"

text \<open>
  Modelled from the spec: \<open>Container.dispose\<close> (the container is not among the sources).
  The cached instances are disposed in reverse resolution order; a disposer's failure does
  not stop the rest; afterwards the container holds nothing, so a second disposal finds
  nothing to dispose.
\<close>

definition container_dispose :: "Application \<Rightarrow> Application" where
  "container_dispose a =
     (a\<lparr>trace := trace a @ ContainerDispose # map DisposerCalled (rev (container a))\<rparr>)\<lparr>container := []\<rparr>"

text \<open>
  Modelled from the spec: \<open>Registry.registerCommand\<close> stores the command under its
  namespace and name (a map: registering the same name again replaces the entry).
\<close>

definition registerCommand :: "namespace \<Rightarrow> string \<Rightarrow> Application \<Rightarrow> Application" where
  "registerCommand ns name a =
     emit (RegisterCommand ns name)
       (a\<lparr>registry := (registry a)\<lparr>commands := List.insert (ns, name) (commands (registry a))\<rparr>\<rparr>)"

text \<open>\<open>private get isApiWorker() { return this.options.type === WorkerType.Api }\<close>\<close>

definition isApiWorker :: "Application \<Rightarrow> bool" where
  "isApiWorker a = (options_type a = Api)"

text \<open>\<open>initializeEssential\<close> registers the commands \<open>task\<close> and \<open>registry\<close> under \<open>APP_COMMAND\<close>.\<close>

definition initializeEssential :: "Application \<Rightarrow> Application" where
  "initializeEssential a = registerCommand APP_COMMAND ''registry'' (registerCommand APP_COMMAND ''task'' a)"

definition do_registry_load :: "collaborators \<Rightarrow> Application \<Rightarrow> (app_error, Application) promise" where
  "do_registry_load E a =
     (case registry_load E (registry a) of
        Inl msg \<Rightarrow> Rejected (RegistryLoadError msg) (emit RegistryLoad a)
      | Inr r \<Rightarrow> Resolved (emit RegistryLoad (a\<lparr>registry := r\<rparr>)))"

definition do_container_load :: "collaborators \<Rightarrow> Application \<Rightarrow> (app_error, Application) promise" where
  "do_container_load E a =
     (case container_load E (container a) of
        Inl msg \<Rightarrow> Rejected (ContainerLoadError msg) (emit ContainerLoad a)
      | Inr c \<Rightarrow> Resolved (emit ContainerLoad (a\<lparr>container := c\<rparr>)))"

text \<open>
  \<open>async initialize()\<close>: the \<open>BeforeInitialize\<close> hooks, \<open>initializeEssential()\<close>,
  \<open>registry.load()\<close>, \<open>container.load()\<close>, the \<open>AfterInitialize\<close> hooks.
\<close>

definition initialize :: "collaborators \<Rightarrow> Application \<Rightarrow> (app_error, Application) promise" where
  "initialize E a =
     await (hooks_call BeforeInitialize False a) (\<lambda>a.
     await (do_registry_load E (initializeEssential a)) (\<lambda>a.
     await (do_container_load E a) (\<lambda>a.
     hooks_call AfterInitialize False a)))"

text \<open>
  The loops over \<open>this.transports\<close>: each \<open>start()\<close> (\<open>stop()\<close>) is awaited, and a
  rejection is caught and logged with \<open>logger.error\<close>.
\<close>

fun start_transports :: "transport list \<Rightarrow> Application \<Rightarrow> Application" where
  "start_transports [] a = a"
| "start_transports (t # ts) a =
     start_transports ts
       (if start_rejects t then emit (LoggerError ''Transport start error'') (emit (TransportStart (tr_id t)) a)
        else emit (TransportStart (tr_id t)) a)"

fun stop_transports :: "transport list \<Rightarrow> Application \<Rightarrow> Application" where
  "stop_transports [] a = a"
| "stop_transports (t # ts) a =
     stop_transports ts
       (if stop_rejects t then emit (LoggerError ''Transport stop error'') (emit (TransportStop (tr_id t)) a)
        else emit (TransportStop (tr_id t)) a)"

text \<open>\<open>async start()\<close>\<close>

definition start :: "collaborators \<Rightarrow> Application \<Rightarrow> (app_error, Application) promise" where
  "start E a =
     await (initialize E a) (\<lambda>a.
     await (hooks_call BeforeStart False a) (\<lambda>a.
     hooks_call AfterStart False
       (if isApiWorker a then start_transports (transports a) a else a)))"

text \<open>\<open>async terminate()\<close>\<close>

definition terminate :: "collaborators \<Rightarrow> Application \<Rightarrow> (app_error, Application) promise" where
  "terminate E a =
     await (hooks_call BeforeTerminate True a) (\<lambda>a.
     hooks_call AfterTerminate True
       (emit RegistryClear ((container_dispose a)\<lparr>registry := registry_clear E (registry (container_dispose a))\<rparr>)))"

text \<open>\<open>async stop()\<close>\<close>

definition stop :: "collaborators \<Rightarrow> Application \<Rightarrow> (app_error, Application) promise" where
  "stop E a =
     await (hooks_call BeforeStop False a) (\<lambda>a.
     await (hooks_call AfterStop False
              (if isApiWorker a then stop_transports (transports a) a else a)) (\<lambda>a.
     terminate E a))"

text \<open>
  A step of a lifecycle method is sound when it only extends the trace, never rejects with
  \<open>InvalidState\<close> and always settles.
\<close>

definition sound_step :: "(Application \<Rightarrow> (app_error, Application) promise) \<Rightarrow> bool" where
  "sound_step f =
     (\<forall>a. prefix (trace a) (trace (state_of (f a))) \<and>
          (\<forall>s. f a \<noteq> Rejected InvalidState s) \<and> (\<forall>s. f a \<noteq> Pending s))"

text \<open>
  The events one sequential call of the hooks \<open>cbs\<close> of a kind that is not start-sensitive
  leaves in the trace: every binding is called, in the order given, and a failure is logged
  right after the call that failed.
\<close>

definition hook_events :: "Hook \<Rightarrow> callback list \<Rightarrow> event list" where
  "hook_events k cbs =
     concat (map (\<lambda>cb. if cb_throws cb then [HookCalled k (cb_id cb), HookFailureLogged k (cb_id cb)]
                        else [HookCalled k (cb_id cb)]) cbs)"

text \<open>The events of starting the transports \<open>ts\<close> in order, a rejection logged.\<close>

definition transport_start_events :: "transport list \<Rightarrow> event list" where
  "transport_start_events ts =
     concat (map (\<lambda>t. if start_rejects t then [TransportStart (tr_id t), LoggerError ''Transport start error'']
                       else [TransportStart (tr_id t)]) ts)"

text \<open>The errors \<open>start()\<close> can reject with: that of a start-sensitive hook, or that of a load.\<close>

fun start_error :: "app_error \<Rightarrow> bool" where
  "start_error (HookError k i) = start_sensitive k"
| "start_error (RegistryLoadError m) = True"
| "start_error (ContainerLoadError m) = True"
| "start_error InvalidState = False"

text \<open>No hook of kind \<open>k\<close> in the registry \<open>r\<close> fails.\<close>

definition hooks_pass :: "Registry \<Rightarrow> Hook \<Rightarrow> bool" where
  "hooks_pass r k = list_all (\<lambda>cb. \<not> cb_throws cb) (hooks r k)"

text \<open>
  Nothing fails in \<open>start()\<close>: no \<open>BeforeInitialize\<close> hook of the registry, neither load
  (\<open>r\<close> and \<open>c\<close> are the registry and the container they leave), and no
  \<open>AfterInitialize\<close>, \<open>BeforeStart\<close> or \<open>AfterStart\<close> hook of the loaded registry.
\<close>

definition start_passes :: "collaborators \<Rightarrow> Application \<Rightarrow> Registry \<Rightarrow> nat list \<Rightarrow> bool" where
  "start_passes E a r c =
     (hooks_pass (registry a) BeforeInitialize \<and>
      registry_load E (registry (initializeEssential a)) = Inr r \<and>
      container_load E (container a) = Inr c \<and>
      hooks_pass r AfterInitialize \<and> hooks_pass r BeforeStart \<and> hooks_pass r AfterStart)"

text \<open>
  The whole start sequence, as events: the \<open>BeforeInitialize\<close> hooks, the two essential
  commands, \<open>registry.load()\<close>, \<open>container.load()\<close>, the \<open>AfterInitialize\<close> hooks, the
  \<open>BeforeStart\<close> hooks, the start of every transport on an API worker, the \<open>AfterStart\<close>
  hooks; \<open>r\<close> is the registry after the load.
\<close>

definition start_events :: "Application \<Rightarrow> Registry \<Rightarrow> event list" where
  "start_events a r =
     hook_events BeforeInitialize (hooks (registry a) BeforeInitialize)
     @ [RegisterCommand APP_COMMAND ''task'', RegisterCommand APP_COMMAND ''registry'', RegistryLoad, ContainerLoad]
     @ hook_events AfterInitialize (hooks r AfterInitialize)
     @ hook_events BeforeStart (hooks r BeforeStart)
     @ (if options_type a = Api then transport_start_events (transports a) else [])
     @ hook_events AfterStart (hooks r AfterStart)"

text \<open>The events of stopping the transports \<open>ts\<close> in order, a rejection logged.\<close>

definition transport_stop_events :: "transport list \<Rightarrow> event list" where
  "transport_stop_events ts =
     concat (map (\<lambda>t. if stop_rejects t then [TransportStop (tr_id t), LoggerError ''Transport stop error'']
                       else [TransportStop (tr_id t)]) ts)"

section \<open>The supervisor: \<open>ApplicationServer\<close> (\<open>packages/server/lib/server.ts\<close>)\<close>

text \<open>
  Modelled from the spec: the enumeration \<open>WorkerMessageType\<close> of \<open>./common\<close>, which is
  not among the sources: the message kinds of the worker protocol.
\<close>

datatype WorkerMessageType = Ready | Start | Stop | ExecuteInvoke | ExecuteResult

text \<open>A posted message \<open>{ type, payload }\<close>; \<open>None\<close> when the message has no payload.\<close>

datatype worker_message = Message WorkerMessageType "any option"

text \<open>\<open>taskWorkers: number | any[]\<close> and \<open>apiWorkers: number | any[]\<close>\<close>

datatype workers_option = Count nat | Options "any list"

record ApplicationServerOptions =
  applicationPath :: string
  taskWorkers :: workers_option
  apiWorkers :: workers_option

record ApplicationWorkerData =
  wd_applicationPath :: string
  wd_id :: nat
  workerType :: WorkerType
  workerOptions :: "any option"
  hasTaskRunners :: bool
  isServer :: bool

text \<open>
  A worker thread: \<open>threadId\<close> is unique among the threads a process creates, so it
  stands for the identity of the \<open>Worker\<close> object.
\<close>

record Worker =
  threadId :: nat
  workerData :: ApplicationWorkerData

text \<open>
  Modelled from the spec: \<open>Pool\<close> (imported from the application package, not among
  the sources). The pool keeps its members in the order they were added; \<open>next()\<close> returns
  them in a stable cyclic order from a cursor; a removed member is no longer returned.
  An empty pool has no member to return (\<open>None\<close>).
\<close>

record 'a Pool =
  items :: "'a list"
  current :: nat

definition new_Pool :: "'a Pool" where
  "new_Pool = \<lparr>items = [], current = 0\<rparr>"

definition pool_add :: "'a \<Rightarrow> 'a Pool \<Rightarrow> 'a Pool" where
  "pool_add x p = p\<lparr>items := items p @ [x]\<rparr>"

definition pool_remove :: "'a \<Rightarrow> 'a Pool \<Rightarrow> 'a Pool" where
  "pool_remove x p = p\<lparr>items := removeAll x (items p)\<rparr>"

definition pool_next :: "'a Pool \<Rightarrow> ('a \<times> 'a Pool) option" where
  "pool_next p =
     (if items p = [] then None
      else Some (items p ! (current p mod length (items p)),
                 p\<lparr>current := Suc (current p mod length (items p))\<rparr>))"

datatype log_entry =
    LogInfo string
  | LogDebug string
  | LogError string
  | LogFatal string
  | LogWorkerCrashed nat int
  | LogWorkerExited nat

text \<open>
  The supervisor: its options, the set \<open>workers\<close> (in insertion order), the pool
  \<open>taskRunners\<close>, the flag \<open>#exiting\<close>, what it has logged, the messages it has posted
  (the target's thread id with each), the thread id the next \<open>new Worker\<close> gets, and the
  exit code of the process once \<open>process.exit\<close> has been called.
\<close>

record ApplicationServer =
  options :: ApplicationServerOptions
  workers :: "Worker list"
  taskRunners :: "Worker Pool"
  exiting :: bool
  logger :: "log_entry list"
  posted :: "(nat \<times> worker_message) list"
  next_threadId :: nat
  process_exit :: "int option"

text \<open>The constructor (the watch-mode import aside).\<close>

definition new_ApplicationServer :: "ApplicationServerOptions \<Rightarrow> ApplicationServer" where
  "new_ApplicationServer opts =
     \<lparr>options = opts, workers = [], taskRunners = new_Pool, exiting = False, logger = [],
      posted = [], next_threadId = 1, process_exit = None\<rparr>"

definition log :: "log_entry \<Rightarrow> ApplicationServer \<Rightarrow> ApplicationServer" where
  "log e s = s\<lparr>logger := logger s @ [e]\<rparr>"

definition postMessage :: "Worker \<Rightarrow> worker_message \<Rightarrow> ApplicationServer \<Rightarrow> ApplicationServer" where
  "postMessage worker m s = s\<lparr>posted := posted s @ [(threadId worker, m)]\<rparr>"

text \<open>\<open>!!taskWorkers\<close>: the number 0 is falsy, every array is truthy.\<close>

definition truthy :: "workers_option \<Rightarrow> bool" where
  "truthy w = (case w of Count n \<Rightarrow> n \<noteq> 0 | Options xs \<Rightarrow> True)"

text \<open>
  \<open>createWorker(type, id, options)\<close>: the new worker is added to \<open>workers\<close>, and to
  \<open>taskRunners\<close> when it is a task worker. The handlers it registers on the worker are
  \<open>on_exit\<close> and \<open>on_ExecuteInvoke\<close> below.
\<close>

definition createWorker :: "WorkerType \<Rightarrow> nat \<Rightarrow> any option \<Rightarrow> ApplicationServer \<Rightarrow> Worker \<times> ApplicationServer" where
  "createWorker ty i opts s =
     (let worker = \<lparr>threadId = next_threadId s,
                    workerData = \<lparr>wd_applicationPath = applicationPath (options s), wd_id = i,
                                  workerType = ty, workerOptions = opts,
                                  hasTaskRunners = truthy (taskWorkers (options s)), isServer = True\<rparr>\<rparr>;
          s1 = s\<lparr>next_threadId := Suc (next_threadId s), workers := workers s @ [worker]\<rparr>
      in (worker, if ty = Task then s1\<lparr>taskRunners := pool_add worker (taskRunners s1)\<rparr> else s1))"

text \<open>
  The \<open>exit\<close> handler of a worker, \<open>worker.on('exit', (code) => ...)\<close>. The type, id
  and options the closure captured are those in the worker's data.
\<close>

definition on_exit :: "Worker \<Rightarrow> int \<Rightarrow> ApplicationServer \<Rightarrow> ApplicationServer" where
  "on_exit worker exit_code s =
     (let s1 = s\<lparr>workers := removeAll worker (workers s)\<rparr>;
          s2 = (if workerType (workerData worker) = Task \<and> worker \<in> set (items (taskRunners s1))
                then s1\<lparr>taskRunners := pool_remove worker (taskRunners s1)\<rparr> else s1)
      in if exit_code \<noteq> 0 then
           (let s3 = log (LogWorkerCrashed (threadId worker) exit_code) s2
            in if \<not> exiting s3 then
                 (case createWorker (workerType (workerData worker)) (wd_id (workerData worker))
                         (workerOptions (workerData worker)) s3 of
                    (replacement, s4) \<Rightarrow> postMessage replacement (Message Start None) s4)
               else s3)
         else log (LogWorkerExited (threadId worker)) s2)"

text \<open>
  The \<open>ExecuteInvoke\<close> handler registered on every worker that is not a task worker:
  \<open>const worker = await this.taskRunners.next(); worker.postMessage({ type, payload })\<close>.
\<close>

definition on_ExecuteInvoke :: "any \<Rightarrow> ApplicationServer \<Rightarrow> ApplicationServer" where
  "on_ExecuteInvoke payload s =
     (case pool_next (taskRunners s) of
        None \<Rightarrow> s
      | Some (worker, p) \<Rightarrow> postMessage worker (Message ExecuteInvoke (Some payload)) (s\<lparr>taskRunners := p\<rparr>))"

text \<open>\<open>createWorkers(type, workers)\<close>\<close>

definition worker_count :: "workers_option \<Rightarrow> nat" where
  "worker_count w = (case w of Count n \<Rightarrow> n | Options xs \<Rightarrow> length xs)"

definition worker_options :: "workers_option \<Rightarrow> nat \<Rightarrow> any option" where
  "worker_options w i = (case w of Count n \<Rightarrow> None | Options xs \<Rightarrow> Some (xs ! i))"

definition createWorkers :: "WorkerType \<Rightarrow> workers_option \<Rightarrow> ApplicationServer \<Rightarrow> ApplicationServer" where
  "createWorkers ty w s =
     fold (\<lambda>i s. snd (createWorker ty i (worker_options w i) s)) [0 ..< worker_count w] s"

text \<open>
  What the worker threads do is outside the supervisor. \<open>start()\<close> creates every worker
  first and only then, one worker at a time, registers \<open>once(worker, 'online')\<close> and, after
  it, the listeners for \<open>Ready\<close> and \<open>error\<close>. \<open>startup_of\<close> says what \<open>start()\<close>
  observes of a thread once the loop has reached it:
  \<^item> \<open>BecomesReady\<close>: the thread's \<open>online\<close> event is observed and \<open>Ready\<close> follows;
  \<^item> \<open>OnlineMissed\<close>: the \<open>online\<close> event is not observed (the thread came online before
    the loop registered its listener, as a worker that is not the first normally has, or
    it never comes online) and no error follows: the promise of \<open>once\<close> is never settled;
  \<^item> \<open>NeverReady\<close>: \<open>online\<close> is observed, and neither \<open>Ready\<close> nor an error follows;
  \<^item> \<open>ErrorAwaitingOnline\<close>: the thread emits an error while \<open>once(worker, 'online')\<close>
    is pending, whether it is in fact online or not (the promise of \<open>events.once\<close>
    rejects when the emitter emits \<open>error\<close>);
  \<^item> \<open>ErrorAwaitingReady\<close>: \<open>online\<close> is observed, and the thread emits an error while
    \<open>start()\<close> awaits its \<open>Ready\<close> message, when \<open>onError\<close> is registered.

  \<open>exit_on_stop\<close> gives the code a thread exits with once it has been posted \<open>Stop\<close>
  (\<open>None\<close>: it never exits).
\<close>

datatype startup =
    BecomesReady
  | OnlineMissed
  | NeverReady
  | ErrorAwaitingOnline string
  | ErrorAwaitingReady string

record worker_env =
  startup_of :: "nat \<Rightarrow> startup"
  exit_on_stop :: "nat \<Rightarrow> int option"

text \<open>
  \<open>async stop()\<close>. The loop posts \<open>Stop\<close> to a worker and awaits its \<open>exit\<close> event
  before it goes on to the next one; the worker's \<open>exit\<close> handler runs at that event.
  While \<open>#exiting\<close> is set the handler adds no worker, so the workers the loop visits are
  those in the set when it starts.
\<close>

definition stop_begin :: "ApplicationServer \<Rightarrow> ApplicationServer" where
  "stop_begin s = (log (LogInfo ''Stopping application server...'') s)\<lparr>exiting := True\<rparr>"

fun stop_loop :: "worker_env \<Rightarrow> Worker list \<Rightarrow> ApplicationServer \<Rightarrow> (string, ApplicationServer) promise" where
  "stop_loop env [] s = Resolved s"
| "stop_loop env (worker # ws) s =
     (case exit_on_stop env (threadId worker) of
        None \<Rightarrow> Pending (postMessage worker (Message Stop None) s)
      | Some exit_code \<Rightarrow> stop_loop env ws (on_exit worker exit_code (postMessage worker (Message Stop None) s)))"

definition stop_end :: "(string, ApplicationServer) promise \<Rightarrow> (string, ApplicationServer) promise" where
  "stop_end p = await p (\<lambda>s. Resolved (s\<lparr>exiting := False\<rparr>))"

definition server_stop :: "worker_env \<Rightarrow> ApplicationServer \<Rightarrow> (string, ApplicationServer) promise" where
  "server_stop env s = stop_end (stop_loop env (workers (stop_begin s)) (stop_begin s))"

text \<open>A worker thread that dies of an uncaught error exits with code 1.\<close>

definition uncaught_exit_code :: int where
  "uncaught_exit_code = 1"

text \<open>
  The \<open>stop()\<close> that \<open>onError\<close> calls for the worker \<open>failed\<close>, which is about to exit
  by itself. \<open>stop()\<close> runs up to its first \<open>await\<close> (it has posted \<open>Stop\<close> to the first
  worker of the set); the \<open>exit\<close> event of the failed worker is the next event, and its
  handler takes the worker out of the set, so the loop does not visit it later.
\<close>

definition stop_after_error :: "worker_env \<Rightarrow> Worker \<Rightarrow> ApplicationServer \<Rightarrow> (string, ApplicationServer) promise" where
  "stop_after_error env failed s =
     (case workers (stop_begin s) of
        [] \<Rightarrow> stop_end (Resolved (stop_begin s))
      | worker # ws \<Rightarrow>
          (let s1 = on_exit failed uncaught_exit_code (postMessage worker (Message Stop None) (stop_begin s))
           in if worker = failed then stop_end (stop_loop env ws s1)
              else (case exit_on_stop env (threadId worker) of
                      None \<Rightarrow> Pending s1
                    | Some exit_code \<Rightarrow> stop_end (stop_loop env (removeAll failed ws) (on_exit worker exit_code s1)))))"

text \<open>
  The loop of \<open>start()\<close> over the workers: it awaits \<open>once(worker, 'online')\<close>, then a
  promise that the worker's \<open>Ready\<close> message resolves. A promise that nothing settles
  leaves \<open>start()\<close> pending. An \<open>error\<close> event always reaches the handler
  \<open>createWorker\<close> registered first (\<open>logger.error\<close>). While \<open>once(worker, 'online')\<close> is
  pending it rejects that promise, and with it \<open>start()\<close>: nothing is logged as fatal and
  \<open>stop()\<close> is not called. While \<open>Ready\<close> is awaited it reaches \<open>onError\<close>:
  \<open>logger.fatal(err)\<close> and \<open>this.stop()\<close>, which is not awaited; \<open>onError\<close> neither
  resolves nor rejects the promise, so \<open>start()\<close> stays pending.
\<close>

fun await_ready :: "worker_env \<Rightarrow> Worker list \<Rightarrow> ApplicationServer \<Rightarrow> (string, ApplicationServer) promise" where
  "await_ready env [] s = Resolved s"
| "await_ready env (worker # ws) s =
     (case startup_of env (threadId worker) of
        BecomesReady \<Rightarrow> await_ready env ws s
      | OnlineMissed \<Rightarrow> Pending s
      | NeverReady \<Rightarrow> Pending s
      | ErrorAwaitingOnline err \<Rightarrow> Rejected err (log (LogError err) s)
      | ErrorAwaitingReady err \<Rightarrow>
          Pending (state_of (stop_after_error env worker (log (LogFatal err) (log (LogError err) s)))))"

text \<open>
  \<open>async start()\<close>: the workers are created first (task workers, then API workers), then
  awaited in the order of the set.
\<close>

definition spawn_workers :: "ApplicationServer \<Rightarrow> ApplicationServer" where
  "spawn_workers s =
     (let s1 = log (LogDebug ''Spinning up task workers...'') (log (LogInfo ''Starting application server...'') s);
          s2 = createWorkers Task (taskWorkers (options s1)) s1;
          s3 = log (LogDebug ''Spinning up task api workers...'') s2
      in createWorkers Api (apiWorkers (options s3)) s3)"

definition server_start :: "worker_env \<Rightarrow> ApplicationServer \<Rightarrow> (string, ApplicationServer) promise" where
  "server_start env s = await_ready env (workers (spawn_workers s)) (spawn_workers s)"

text \<open>
  The command line (\<open>packages/cli/cli.ts\<close>) on SIGTERM or SIGINT:
  \<open>tryExit(() => entryApp.stop())\<close> arms a timer of \<open>shutdownTimeout\<close> milliseconds that
  calls \<open>exitProcess\<close>, awaits \<open>stop()\<close>, and calls \<open>exitProcess\<close> in its \<open>finally\<close>.
  Whether \<open>stop()\<close> settles or not, the process exits through \<open>process.exit(0)\<close>.
\<close>

definition exitProcess :: "ApplicationServer \<Rightarrow> ApplicationServer" where
  "exitProcess s = s\<lparr>process_exit := Some 0\<rparr>"

definition tryExit :: "worker_env \<Rightarrow> ApplicationServer \<Rightarrow> ApplicationServer" where
  "tryExit env s = exitProcess (state_of (server_stop env s))"

text \<open>
  The events the supervisor handles once the workers run: a worker of the set exits
  with a code, or an API worker sends \<open>ExecuteInvoke\<close> with a payload.
\<close>

datatype server_event = WorkerExit Worker int | Invoke any

fun handle :: "server_event \<Rightarrow> ApplicationServer \<Rightarrow> ApplicationServer" where
  "handle (WorkerExit worker exit_code) s = (if worker \<in> set (workers s) then on_exit worker exit_code s else s)"
| "handle (Invoke payload) s = on_ExecuteInvoke payload s"

definition run :: "server_event list \<Rightarrow> ApplicationServer \<Rightarrow> ApplicationServer" where
  "run evs s = fold handle evs s"

text \<open>The workers that \<open>k\<close> successive calls of \<open>next()\<close> return.\<close>

fun next_many :: "nat \<Rightarrow> 'a Pool \<Rightarrow> 'a list" where
  "next_many 0 p = []"
| "next_many (Suc k) p = (case pool_next p of None \<Rightarrow> [] | Some (x, p') \<Rightarrow> x # next_many k p')"

text \<open>
  The state of a supervisor is well formed when thread ids are fresh (every worker of the
  set has an id below the one the next worker gets, and no two share an id) and the pool
  holds only task workers of the set.
\<close>

definition well_formed :: "ApplicationServer \<Rightarrow> bool" where
  "well_formed s =
     (list_all (\<lambda>w. threadId w < next_threadId s) (workers s) \<and>
      distinct (map threadId (workers s)) \<and>
      list_all (\<lambda>w. w \<in> set (workers s) \<and> workerType (workerData w) = Task) (items (taskRunners s)))"

text \<open>The workers that the loop of \<open>stop()\<close> posts \<open>Stop\<close> to: it ends at the first one that never exits.\<close>

fun signalled :: "worker_env \<Rightarrow> Worker list \<Rightarrow> Worker list" where
  "signalled env [] = []"
| "signalled env (worker # ws) =
     worker # (case exit_on_stop env (threadId worker) of None \<Rightarrow> [] | Some exit_code \<Rightarrow> signalled env ws)"

definition exits_on_stop :: "worker_env \<Rightarrow> Worker \<Rightarrow> bool" where
  "exits_on_stop env worker = (exit_on_stop env (threadId worker) \<noteq> None)"

text \<open>
  The first worker, in the order of the set, that does not become ready, with what
  \<open>start()\<close> observes of it instead.
\<close>

fun first_failed :: "worker_env \<Rightarrow> Worker list \<Rightarrow> (Worker \<times> startup) option" where
  "first_failed env [] = None"
| "first_failed env (worker # ws) =
     (if startup_of env (threadId worker) = BecomesReady then first_failed env ws
      else Some (worker, startup_of env (threadId worker)))"

text \<open>
  A thread id is retired when it is below the id the next worker gets and belongs to no
  member of the pool.
\<close>

definition retired :: "nat \<Rightarrow> ApplicationServer \<Rightarrow> bool" where
  "retired tid s = (tid < next_threadId s \<and> tid \<notin> threadId ` set (items (taskRunners s)))"

section \<open>Example configurations\<close>

text \<open>
  Collaborators whose \<open>clear\<close> empties the commands and keeps the hook bindings, and whose
  loads succeed and change nothing.
\<close>

definition example_collaborators :: collaborators where
  "example_collaborators =
     \<lparr>registry_clear = (\<lambda>r. r\<lparr>commands := []\<rparr>), registry_load = Inr, container_load = Inr\<rparr>"

text \<open>
  An API worker with one transport whose \<open>stop()\<close> rejects, one \<open>BeforeStop\<close> hook, two
  \<open>BeforeTerminate\<close> hooks (the second fails), two \<open>AfterTerminate\<close> hooks, and two
  resolved providers.
\<close>

definition example_app :: Application where
  "example_app =
     \<lparr>options_type = Api,
      transports = [\<lparr>tr_id = 1, start_rejects = False, stop_rejects = True\<rparr>],
      registry = \<lparr>hooks = (\<lambda>k. if k = BeforeStop then [\<lparr>cb_id = 1, cb_throws = False\<rparr>]
                              else if k = BeforeTerminate then [\<lparr>cb_id = 2, cb_throws = False\<rparr>, \<lparr>cb_id = 3, cb_throws = True\<rparr>]
                              else if k = AfterTerminate then [\<lparr>cb_id = 4, cb_throws = False\<rparr>, \<lparr>cb_id = 5, cb_throws = False\<rparr>]
                              else []),
                  commands = []\<rparr>,
      container = [10, 11],
      trace = []\<rparr>"

text \<open>A supervisor with two task workers (thread ids 1 and 2) and one API worker (thread id 3).\<close>

definition example_options :: ApplicationServerOptions where
  "example_options = \<lparr>applicationPath = ''app.js'', taskWorkers = Options [''t0'', ''t1''], apiWorkers = Count 1\<rparr>"

definition example_server :: ApplicationServer where
  "example_server =
     createWorkers Api (apiWorkers example_options)
       (createWorkers Task (taskWorkers example_options) (new_ApplicationServer example_options))"

text \<open>Every worker becomes ready and exits with code 0 when asked to stop.\<close>

definition obedient_env :: worker_env where
  "obedient_env = \<lparr>startup_of = (\<lambda>t. BecomesReady), exit_on_stop = (\<lambda>t. Some 0)\<rparr>"

text \<open>The worker with thread id 1 never exits; the others exit with code 0.\<close>

definition stuck_env :: worker_env where
  "stuck_env = \<lparr>startup_of = (\<lambda>t. BecomesReady), exit_on_stop = (\<lambda>t. if t = 1 then None else Some 0)\<rparr>"

text \<open>
  The first worker (thread id 1) raises an error while \<open>start()\<close> awaits its \<open>Ready\<close>
  message; every worker exits when asked to stop.
\<close>

definition failing_env :: worker_env where
  "failing_env =
     \<lparr>startup_of = (\<lambda>t. if t = 1 then ErrorAwaitingReady ''boom'' else BecomesReady),
      exit_on_stop = (\<lambda>t. Some 0)\<rparr>"

text \<open>Three calls of \<open>stream\<close> with empty metadata: a blob, a readable stream, an array buffer.\<close>

definition example_calls :: "(source \<times> StreamMetadata) list" where
  "example_calls =
     [(Blob 3 ''text/plain'', \<lparr>filename = None, type_m = None, size_m = None\<rparr>),
      (ReadableStream, \<lparr>filename = None, type_m = None, size_m = None\<rparr>),
      (ArrayBuffer 8, \<lparr>filename = None, type_m = None, size_m = None\<rparr>)]"

section \<open>Properties of the client library\<close>

lemma message_with_text: "message (new_ApiError c (Some t) d) = t"
  by (simp add: message_def new_ApiError_def)

lemma message_without_text: "message (new_ApiError c None d) = c"
  by (simp add: message_def new_ApiError_def message_getter_def Error_prototype_message_def)

text \<open>
  C8 (the code departs from the claim). The claim: \<open>message\<close> reads as the code
  concatenated with the human text, and \<open>toJSON()\<close> is the record of code, message and
  data. For \<open>new ApiError('NotFound', 'missing')\<close> the message reads as
  \<open>'missing'\<close>, not \<open>'NotFoundmissing'\<close>: the own property that \<open>super(message)\<close>
  defines shadows the accessor, and \<open>toJSON()\<close> carries that value.
\<close>

theorem ApiError_message_shadowed:
  "message (new_ApiError ''NotFound'' (Some ''missing'') None) = ''missing'' \<and>
   toJSON (new_ApiError ''NotFound'' (Some ''missing'') None) =
     \<lparr>wire_code = ''NotFound'', wire_message = ''missing'', wire_data = None\<rparr>"
  by (simp add: message_def new_ApiError_def toJSON_def)

lemma stream_throws_unchanged: "fst (stream this src metadata) = Inl e \<Longrightarrow> snd (stream this src metadata) = this"
  by (auto simp: stream_def Let_def split: sum.splits)

lemma stream_success:
  assumes "fst (stream this src metadata) = Inr s" and "streamId (streams this) < 2 ^ 53"
  shows "id_s s = streamId (streams this) + 1"
    and "streamId (streams (snd (stream this src metadata))) = streamId (streams this) + 1"
    and "up (streams (snd (stream this src metadata))) = (up (streams this))(id_s s \<mapsto> s)"
  using assms by (auto simp: stream_def Let_def js_increment_def split: sum.splits)

lemma stream_cases:
  obtains e where "stream this src metadata = (Inl e, this)"
  | s where "fst (stream this src metadata) = Inr s"
  by (cases "fst (stream this src metadata)") (auto simp: stream_def Let_def split: sum.splits)

lemma stream_calls_Cons:
  "stream_calls this ((src, metadata) # calls) =
     (fst (stream this src metadata) # fst (stream_calls (snd (stream this src metadata)) calls),
      snd (stream_calls (snd (stream this src metadata)) calls))"
  by (simp split: prod.splits)

lemma stream_calls_ids:
  "streamId (streams this) + length calls \<le> 2 ^ 53 \<Longrightarrow>
   allocated_ids (fst (stream_calls this calls)) =
     map (\<lambda>k. streamId (streams this) + 1 + k) [0 ..< length (allocated_ids (fst (stream_calls this calls)))]
   \<and> streamId (streams (snd (stream_calls this calls))) =
       streamId (streams this) + length (allocated_ids (fst (stream_calls this calls)))
   \<and> length (allocated_ids (fst (stream_calls this calls))) \<le> length calls"
proof (induction calls arbitrary: this)
  case Nil
  then show ?case by simp
next
  case (Cons c calls)
  obtain src metadata where c: "c = (src, metadata)" by (cases c)
  show ?case
  proof (rule stream_cases [of this src metadata])
    fix e assume e: "stream this src metadata = (Inl e, this)"
    have "streamId (streams this) + length calls \<le> 2 ^ 53" using Cons.prems by simp
    from Cons.IH [OF this] show ?thesis
      unfolding c stream_calls_Cons e by simp
  next
    fix s assume s: "fst (stream this src metadata) = Inr s"
    have lt: "streamId (streams this) < 2 ^ 53" using Cons.prems by simp
    let ?this' = "snd (stream this src metadata)"
    have sid: "streamId (streams ?this') = streamId (streams this) + 1"
      and ids: "id_s s = streamId (streams this) + 1"
      using stream_success [OF s lt] by simp_all
    have "streamId (streams ?this') + length calls \<le> 2 ^ 53" using Cons.prems sid by simp
    from Cons.IH [OF this] have IH:
      "allocated_ids (fst (stream_calls ?this' calls)) =
         map (\<lambda>k. streamId (streams ?this') + 1 + k) [0 ..< length (allocated_ids (fst (stream_calls ?this' calls)))]"
      "streamId (streams (snd (stream_calls ?this' calls))) =
         streamId (streams ?this') + length (allocated_ids (fst (stream_calls ?this' calls)))"
      "length (allocated_ids (fst (stream_calls ?this' calls))) \<le> length calls"
      by simp_all
    let ?r = "allocated_ids (fst (stream_calls ?this' calls))"
    have fstc: "allocated_ids (fst (stream_calls this (c # calls))) = id_s s # ?r"
      unfolding c stream_calls_Cons by (simp add: s)
    have sndc: "snd (stream_calls this (c # calls)) = snd (stream_calls ?this' calls)"
      unfolding c stream_calls_Cons by simp
    have "map (\<lambda>k. streamId (streams this) + 1 + k) [0 ..< Suc (length ?r)]
        = (streamId (streams this) + 1) # map (\<lambda>k. streamId (streams this) + 1 + Suc k) [0 ..< length ?r]"
      by (simp only: map_Suc_upt [symmetric] upt_conv_Cons [of 0] list.map map_map o_def) simp
    also have "\<dots> = id_s s # ?r"
      using IH(1) ids sid by simp
    finally show ?thesis using IH(2,3) sid by (simp add: fstc sndc del: upt_Suc)
  qed
qed

text \<open>
  C10. With no \<open>metadata.size\<close>, \<open>stream\<close> on a \<open>ReadableStream\<close> throws
  "Size is required for ReadableStream" and leaves the client as it was (no stream added,
  counter not incremented); on a \<open>Blob\<close>, a \<open>File\<close> or an \<open>ArrayBuffer\<close> the call
  succeeds and the stream's size is the source's.
\<close>

theorem stream_size_rule:
  assumes "size_m metadata = None"
  shows "stream this ReadableStream metadata = (Inl (Error ''Size is required for ReadableStream''), this) \<and>
         (\<exists>s. fst (stream this (Blob n ty) metadata) = Inr s \<and> size_m (metadata_s s) = Some n) \<and>
         (\<exists>s. fst (stream this (File n ty nm) metadata) = Inr s \<and> size_m (metadata_s s) = Some n) \<and>
         (\<exists>s. fst (stream this (ArrayBuffer n) metadata) = Inr s \<and> size_m (metadata_s s) = Some n)"
  using assms by (simp add: stream_def Let_def infer_size_def file_type_def falsy_number_def)

text \<open>C10 at a fresh client.\<close>

theorem stream_size_rule_witness:
  "size_m \<lparr>filename = None, type_m = None, size_m = None\<rparr> = None \<and>
   stream new_BaseClient ReadableStream \<lparr>filename = None, type_m = None, size_m = None\<rparr> =
     (Inl (Error ''Size is required for ReadableStream''), new_BaseClient) \<and>
   (\<exists>s. fst (stream new_BaseClient (Blob 3 ''text/plain'') \<lparr>filename = None, type_m = None, size_m = None\<rparr>) = Inr s \<and>
        size_m (metadata_s s) = Some 3)"
  using stream_size_rule [of "\<lparr>filename = None, type_m = None, size_m = None\<rparr>" new_BaseClient 3 "''text/plain''"]
  by simp

text \<open>
  C9. In any sequence of \<open>stream\<close> calls on a client, the ids of the streams the
  successful calls return are strictly increasing, pairwise different, and above the
  counter the client started with. The counter is a double: the statement covers the
  sequences that keep it within \<open>2^53\<close>, where the increment is exact.
\<close>

theorem stream_ids_strictly_increase:
  assumes "streamId (streams this) + length calls \<le> 2 ^ 53"
  shows "sorted_wrt (<) (allocated_ids (fst (stream_calls this calls))) \<and>
         distinct (allocated_ids (fst (stream_calls this calls))) \<and>
         (\<forall>i \<in> set (allocated_ids (fst (stream_calls this calls))). streamId (streams this) < i)"
proof -
  let ?ids = "allocated_ids (fst (stream_calls this calls))"
  have eq: "?ids = map (\<lambda>k. streamId (streams this) + 1 + k) [0 ..< length ?ids]"
    using stream_calls_ids [OF assms] by blast
  have 1: "sorted_wrt (<) (map (\<lambda>k. streamId (streams this) + 1 + k) [0 ..< length ?ids])"
    by (simp add: sorted_wrt_map sorted_wrt_upt del: upt_Suc)
  have 2: "\<forall>i \<in> set (map (\<lambda>k. streamId (streams this) + 1 + k) [0 ..< length ?ids]). streamId (streams this) < i"
    by auto
  from 1 2 have "sorted_wrt (<) ?ids" "\<forall>i \<in> set ?ids. streamId (streams this) < i"
    using eq by metis+
  moreover from this(1) have "distinct ?ids" by (simp add: strict_sorted_iff)
  ultimately show ?thesis by blast
qed

text \<open>C9 at a fresh client: three calls, the second of which throws.\<close>

theorem stream_ids_strictly_increase_witness:
  "streamId (streams new_BaseClient) + length example_calls \<le> 2 ^ 53 \<and>
   allocated_ids (fst (stream_calls new_BaseClient example_calls)) = [1, 2] \<and>
   sorted_wrt (<) (allocated_ids (fst (stream_calls new_BaseClient example_calls)))"
proof -
  have h: "streamId (streams new_BaseClient) + length example_calls \<le> 2 ^ 53"
    by (simp add: new_BaseClient_def example_calls_def)
  have "allocated_ids (fst (stream_calls new_BaseClient example_calls)) = [1, 2]"
    by (simp add: new_BaseClient_def example_calls_def stream_def infer_size_def file_type_def
        falsy_number_def js_increment_def Let_def)
  with h stream_ids_strictly_increase [OF h] show ?thesis by simp
qed

section \<open>Properties of the application lifecycle\<close>

lemma call_sequential_logged:
  "\<not> start_sensitive k \<Longrightarrow> call_sequential k cbs a = Resolved (a\<lparr>trace := trace a @ hook_events k cbs\<rparr>)"
proof (induction cbs arbitrary: a)
  case Nil
  then show ?case by (simp add: hook_events_def)
next
  case (Cons cb cbs)
  then show ?case by (simp add: hook_events_def emit_def)
qed

lemma hooks_call_logged:
  "\<not> start_sensitive k \<Longrightarrow>
   hooks_call k reverse a =
     Resolved (a\<lparr>trace := trace a @ hook_events k (if reverse then rev (hooks (registry a) k) else hooks (registry a) k)\<rparr>)"
  by (simp add: hooks_call_def call_sequential_logged)

lemma stop_transports_trace:
  "stop_transports ts a = a\<lparr>trace := trace a @ transport_stop_events ts\<rparr>"
proof (induction ts arbitrary: a)
  case Nil
  then show ?case by (simp add: transport_stop_events_def)
next
  case (Cons t ts)
  then show ?case by (simp add: transport_stop_events_def emit_def)
qed

lemma terminate_result:
  "terminate E a =
     Resolved (a\<lparr>trace := trace a
                  @ hook_events BeforeTerminate (rev (hooks (registry a) BeforeTerminate))
                  @ [ContainerDispose] @ map DisposerCalled (rev (container a)) @ [RegistryClear]
                  @ hook_events AfterTerminate (rev (hooks (registry_clear E (registry a)) AfterTerminate)),
                container := [],
                registry := registry_clear E (registry a)\<rparr>)"
  by (simp add: terminate_def hooks_call_logged await_def container_dispose_def emit_def)

lemma stop_result:
  "stop E a =
     Resolved (a\<lparr>trace := trace a
                  @ hook_events BeforeStop (hooks (registry a) BeforeStop)
                  @ (if options_type a = Api then transport_stop_events (transports a) else [])
                  @ hook_events AfterStop (hooks (registry a) AfterStop)
                  @ hook_events BeforeTerminate (rev (hooks (registry a) BeforeTerminate))
                  @ [ContainerDispose] @ map DisposerCalled (rev (container a)) @ [RegistryClear]
                  @ hook_events AfterTerminate (rev (hooks (registry_clear E (registry a)) AfterTerminate)),
                container := [],
                registry := registry_clear E (registry a)\<rparr>)"
  by (simp add: stop_def terminate_result hooks_call_logged await_def isApiWorker_def stop_transports_trace)

lemma call_sequential_prefix:
  "prefix (trace a) (trace (state_of (call_sequential k cbs a)))"
proof (induction cbs arbitrary: a)
  case Nil
  then show ?case by simp
next
  case (Cons cb cbs)
  have 1: "prefix (trace a) (trace (emit e a))" for e by (simp add: emit_def)
  have 2: "prefix (trace a) (trace (emit e' (emit e a)))" for e e' by (simp add: emit_def)
  show ?case
    using Cons.IH [of "emit (HookCalled k (cb_id cb)) a"]
      Cons.IH [of "emit (HookFailureLogged k (cb_id cb)) (emit (HookCalled k (cb_id cb)) a)"] 1 2
    by (auto intro: prefix_order.trans)
qed

lemma call_sequential_Rejected:
  "call_sequential k cbs a = Rejected e s \<Longrightarrow> strict_prefix (trace a) (trace s) \<and> e \<noteq> InvalidState"
proof (induction cbs arbitrary: a)
  case Nil
  then show ?case by simp
next
  case (Cons cb cbs)
  let ?a1 = "emit (HookCalled k (cb_id cb)) a"
  let ?a2 = "emit (HookFailureLogged k (cb_id cb)) ?a1"
  have 1: "strict_prefix (trace a) (trace ?a1)" by (simp add: emit_def strict_prefix_def)
  have 2: "strict_prefix (trace a) (trace ?a2)" by (simp add: emit_def strict_prefix_def)
  consider (abort) "cb_throws cb" "start_sensitive k"
    | (logged) "cb_throws cb" "\<not> start_sensitive k"
    | (ok) "\<not> cb_throws cb" by blast
  then show ?case
  proof cases
    case abort
    with Cons.prems have "e = HookError k (cb_id cb)" "s = ?a1" by simp_all
    with 1 show ?thesis by simp
  next
    case logged
    with Cons.prems have "call_sequential k cbs ?a2 = Rejected e s" by simp
    from Cons.IH [OF this] 2 show ?thesis by (blast intro: prefix_order.less_trans)
  next
    case ok
    with Cons.prems have "call_sequential k cbs ?a1 = Rejected e s" by simp
    from Cons.IH [OF this] 1 show ?thesis by (blast intro: prefix_order.less_trans)
  qed
qed

lemma hooks_call_prefix: "prefix (trace a) (trace (state_of (hooks_call k r a)))"
  by (simp add: hooks_call_def call_sequential_prefix)

lemma hooks_call_Rejected:
  "hooks_call k r a = Rejected e s \<Longrightarrow> strict_prefix (trace a) (trace s) \<and> e \<noteq> InvalidState"
  unfolding hooks_call_def by (rule call_sequential_Rejected)

lemma initializeEssential_trace:
  "trace (initializeEssential a) = trace a @ [RegisterCommand APP_COMMAND ''task'', RegisterCommand APP_COMMAND ''registry'']"
  by (simp add: initializeEssential_def registerCommand_def emit_def)

lemma do_registry_load_facts:
  "prefix (trace a) (trace (state_of (do_registry_load E a)))"
  "do_registry_load E a \<noteq> Rejected InvalidState s"
  by (auto simp: do_registry_load_def emit_def split: sum.splits)

lemma do_container_load_facts:
  "prefix (trace a) (trace (state_of (do_container_load E a)))"
  "do_container_load E a \<noteq> Rejected InvalidState s"
  by (auto simp: do_container_load_def emit_def split: sum.splits)

lemma start_transports_prefix: "prefix (trace a) (trace (start_transports ts a))"
proof (induction ts arbitrary: a)
  case Nil
  then show ?case by simp
next
  case (Cons t ts)
  have 1: "prefix (trace a) (trace (emit e a))" for e by (simp add: emit_def)
  have 2: "prefix (trace a) (trace (emit e' (emit e a)))" for e e' by (simp add: emit_def)
  show ?case
    using Cons.IH [of "emit (TransportStart (tr_id t)) a"]
      Cons.IH [of "emit (LoggerError ''Transport start error'') (emit (TransportStart (tr_id t)) a)"] 1 2
    by (auto intro: prefix_order.trans)
qed

lemma call_sequential_not_Pending: "call_sequential k cbs a \<noteq> Pending s"
  by (induction cbs arbitrary: a) auto

lemma sound_hooks_call: "sound_step (hooks_call k r)"
  unfolding sound_step_def
proof (intro allI conjI)
  fix a show "prefix (trace a) (trace (state_of (hooks_call k r a)))" by (rule hooks_call_prefix)
next
  fix a s show "hooks_call k r a \<noteq> Rejected InvalidState s"
    using hooks_call_Rejected [of k r a InvalidState s] by blast
next
  fix a s show "hooks_call k r a \<noteq> Pending s"
    by (simp add: hooks_call_def call_sequential_not_Pending)
qed

lemma sound_await: "sound_step f \<Longrightarrow> sound_step g \<Longrightarrow> sound_step (\<lambda>a. await (f a) g)"
  unfolding sound_step_def await_def
  apply (intro allI conjI)
  subgoal for a by (cases "f a") (auto intro: prefix_order.trans dest: spec)
  subgoal for a s by (cases "f a") (auto dest: spec)
  subgoal for a s by (cases "f a") (auto dest: spec)
  done

lemma await_simps:
  "await (Resolved s) rest = rest s"
  "await (Rejected e s) rest = Rejected e s"
  "await (Pending s) rest = Pending s"
  by (simp_all add: await_def)

lemma sound_registry_load: "sound_step (\<lambda>a. do_registry_load E a)"
  unfolding sound_step_def using do_registry_load_facts
  by (auto simp: do_registry_load_def split: sum.splits)

lemma sound_container_load: "sound_step (\<lambda>a. do_container_load E a)"
  unfolding sound_step_def using do_container_load_facts
  by (auto simp: do_container_load_def split: sum.splits)

lemma sound_after_load:
  "sound_step (\<lambda>a. await (do_registry_load E a) (\<lambda>a. await (do_container_load E a) (\<lambda>a. hooks_call AfterInitialize False a)))"
  by (intro sound_await sound_registry_load sound_container_load sound_hooks_call)

lemma sound_stepD:
  assumes "sound_step f"
  shows "prefix (trace a) (trace (state_of (f a)))" and "f a \<noteq> Rejected InvalidState s" and "f a \<noteq> Pending s"
  using assms unfolding sound_step_def by blast+

lemma initialize_facts:
  "strict_prefix (trace a) (trace (state_of (initialize E a)))"
  "initialize E a \<noteq> Rejected InvalidState s"
  "initialize E a \<noteq> Pending s"
proof -
  let ?h = "\<lambda>a. await (do_registry_load E a) (\<lambda>a. await (do_container_load E a) (\<lambda>a. hooks_call AfterInitialize False a))"
  have init: "initialize E a = await (hooks_call BeforeInitialize False a) (\<lambda>a. ?h (initializeEssential a))"
    by (simp add: initialize_def)
  have ess: "strict_prefix (trace b) (trace (initializeEssential b))" for b
    by (simp add: initializeEssential_trace strict_prefix_def)
  note h = sound_stepD [OF sound_after_load [of E]]
  show "strict_prefix (trace a) (trace (state_of (initialize E a)))"
  proof (cases "hooks_call BeforeInitialize False a")
    case (Resolved a1)
    have "prefix (trace a) (trace a1)" using hooks_call_prefix [of a BeforeInitialize False] Resolved by simp
    moreover have "strict_prefix (trace a1) (trace (state_of (?h (initializeEssential a1))))"
      using ess [of a1] h(1) [of "initializeEssential a1"] by (rule prefix_order.less_le_trans)
    ultimately show ?thesis unfolding init Resolved await_simps
      by (rule prefix_order.le_less_trans)
  next
    case (Rejected e s')
    then show ?thesis unfolding init Rejected await_simps using hooks_call_Rejected [OF Rejected] by simp
  next
    case (Pending s')
    then show ?thesis using sound_stepD(3) [OF sound_hooks_call] by blast
  qed
  show "initialize E a \<noteq> Rejected InvalidState s"
  proof (cases "hooks_call BeforeInitialize False a")
    case (Resolved a1)
    then show ?thesis unfolding init Resolved await_simps using h(2) [of "initializeEssential a1" s] by simp
  next
    case (Rejected e s')
    then show ?thesis unfolding init Rejected await_simps using hooks_call_Rejected [OF Rejected] by auto
  next
    case (Pending s')
    then show ?thesis using sound_stepD(3) [OF sound_hooks_call] by blast
  qed
  show "initialize E a \<noteq> Pending s"
  proof (cases "hooks_call BeforeInitialize False a")
    case (Resolved a1)
    then show ?thesis unfolding init Resolved await_simps using h(3) [of "initializeEssential a1" s] by simp
  next
    case (Rejected e s')
    then show ?thesis unfolding init Rejected await_simps by simp
  next
    case (Pending s')
    then show ?thesis using sound_stepD(3) [OF sound_hooks_call] by blast
  qed
qed

lemma sound_after_start:
  "sound_step (\<lambda>a. hooks_call AfterStart False (if isApiWorker a then start_transports (transports a) a else a))"
  unfolding sound_step_def
proof (intro allI conjI)
  fix a
  let ?b = "if isApiWorker a then start_transports (transports a) a else a"
  have "prefix (trace a) (trace ?b)" by (simp add: start_transports_prefix)
  then show "prefix (trace a) (trace (state_of (hooks_call AfterStart False ?b)))"
    using hooks_call_prefix [of ?b AfterStart False] by (rule prefix_order.trans)
next
  fix a s
  show "hooks_call AfterStart False (if isApiWorker a then start_transports (transports a) a else a) \<noteq> Rejected InvalidState s"
    using sound_stepD(2) [OF sound_hooks_call] by blast
next
  fix a s
  show "hooks_call AfterStart False (if isApiWorker a then start_transports (transports a) a else a) \<noteq> Pending s"
    using sound_stepD(3) [OF sound_hooks_call] by blast
qed

lemma sound_start_rest:
  "sound_step (\<lambda>a. await (hooks_call BeforeStart False a)
      (\<lambda>a. hooks_call AfterStart False (if isApiWorker a then start_transports (transports a) a else a)))"
  by (intro sound_await sound_hooks_call sound_after_start)

lemma start_facts:
  "strict_prefix (trace a) (trace (state_of (start E a)))"
  "start E a \<noteq> Rejected InvalidState s"
  "start E a \<noteq> Pending s"
proof -
  note g = sound_stepD [OF sound_start_rest]
  note i = initialize_facts [where a = a and E = E]
  show "strict_prefix (trace a) (trace (state_of (start E a)))"
  proof (cases "initialize E a")
    case (Resolved a1)
    have "strict_prefix (trace a) (trace a1)" using i(1) Resolved by simp
    then show ?thesis unfolding start_def Resolved await_simps
      using g(1) [of a1] by (rule prefix_order.less_le_trans)
  next
    case (Rejected e s')
    then show ?thesis unfolding start_def Rejected await_simps using i(1) Rejected by simp
  next
    case (Pending s')
    then show ?thesis using i(3) by blast
  qed
  show "start E a \<noteq> Rejected InvalidState s"
  proof (cases "initialize E a")
    case (Resolved a1)
    then show ?thesis unfolding start_def Resolved await_simps using g(2) [of a1 s] by simp
  next
    case (Rejected e s')
    then show ?thesis unfolding start_def Rejected await_simps using i(2) [of s'] Rejected by auto
  next
    case (Pending s')
    then show ?thesis using i(3) by blast
  qed
  show "start E a \<noteq> Pending s"
  proof (cases "initialize E a")
    case (Resolved a1)
    then show ?thesis unfolding start_def Resolved await_simps using g(3) [of a1 s] by simp
  next
    case (Rejected e s')
    then show ?thesis unfolding start_def Rejected await_simps by simp
  next
    case (Pending s')
    then show ?thesis using i(3) by blast
  qed
qed

lemma call_sequential_pass:
  "list_all (\<lambda>cb. \<not> cb_throws cb) cbs \<Longrightarrow>
   call_sequential k cbs a = Resolved (a\<lparr>trace := trace a @ hook_events k cbs\<rparr>)"
proof (induction cbs arbitrary: a)
  case Nil
  then show ?case by (simp add: hook_events_def)
next
  case (Cons cb cbs)
  then show ?case by (simp add: hook_events_def emit_def)
qed

lemma call_sequential_Resolved:
  "call_sequential k cbs a = Resolved a' \<Longrightarrow> start_sensitive k \<Longrightarrow> list_all (\<lambda>cb. \<not> cb_throws cb) cbs"
  by (induction cbs arbitrary: a) (auto split: if_splits)

lemma call_sequential_start_error:
  "call_sequential k cbs a = Rejected e s \<Longrightarrow> start_error e"
  by (induction cbs arbitrary: a) (auto split: if_splits)

lemma hooks_call_pass:
  "hooks_pass (registry a) k \<Longrightarrow>
   hooks_call k False a = Resolved (a\<lparr>trace := trace a @ hook_events k (hooks (registry a) k)\<rparr>)"
  by (simp add: hooks_call_def hooks_pass_def call_sequential_pass)

lemma hooks_call_Resolved:
  "hooks_call k False a = Resolved a' \<Longrightarrow> start_sensitive k \<Longrightarrow>
   hooks_pass (registry a) k \<and> a' = a\<lparr>trace := trace a @ hook_events k (hooks (registry a) k)\<rparr>"
proof -
  assume r: "hooks_call k False a = Resolved a'" and k: "start_sensitive k"
  from r have "call_sequential k (hooks (registry a) k) a = Resolved a'" by (simp add: hooks_call_def)
  from call_sequential_Resolved [OF this k] have p: "hooks_pass (registry a) k" by (simp add: hooks_pass_def)
  from hooks_call_pass [OF p] r show ?thesis using p by simp
qed

lemma hooks_call_start_error: "hooks_call k r a = Rejected e s \<Longrightarrow> start_error e"
  unfolding hooks_call_def by (rule call_sequential_start_error)

lemma start_transports_trace:
  "start_transports ts a = a\<lparr>trace := trace a @ transport_start_events ts\<rparr>"
proof (induction ts arbitrary: a)
  case Nil
  then show ?case by (simp add: transport_start_events_def)
next
  case (Cons t ts)
  then show ?case by (simp add: transport_start_events_def emit_def)
qed

lemma await_Resolved:
  "await p rest = Resolved x \<Longrightarrow> \<exists>y. p = Resolved y \<and> rest y = Resolved x"
  by (cases p) (simp_all add: await_def)

lemma await_Rejected:
  "await p rest = Rejected e x \<Longrightarrow> p = Rejected e x \<or> (\<exists>y. p = Resolved y \<and> rest y = Rejected e x)"
  by (cases p) (simp_all add: await_def)

lemma load_start_error:
  "do_registry_load E a = Rejected e s \<Longrightarrow> start_error e"
  "do_container_load E a = Rejected e s \<Longrightarrow> start_error e"
  by (auto simp: do_registry_load_def do_container_load_def split: sum.splits)

lemma load_Resolved:
  "do_registry_load E a = Resolved a' \<Longrightarrow>
     \<exists>r. registry_load E (registry a) = Inr r \<and> a' = emit RegistryLoad (a\<lparr>registry := r\<rparr>)"
  "do_container_load E a = Resolved a' \<Longrightarrow>
     \<exists>c. container_load E (container a) = Inr c \<and> a' = emit ContainerLoad (a\<lparr>container := c\<rparr>)"
  by (auto simp: do_registry_load_def do_container_load_def split: sum.splits)

lemma start_rejects_with: "start E a = Rejected e s \<Longrightarrow> start_error e"
  unfolding start_def initialize_def
  by (auto dest!: await_Rejected dest: hooks_call_start_error load_start_error)

lemma start_when_passes:
  assumes "start_passes E a r c"
  shows "start E a = Resolved (a\<lparr>trace := trace a @ start_events a r, registry := r, container := c\<rparr>)"
proof -
  from assms have p0: "hooks_pass (registry a) BeforeInitialize"
    and rl: "registry_load E (registry (initializeEssential a)) = Inr r"
    and cl: "container_load E (container a) = Inr c"
    and p1: "hooks_pass r AfterInitialize" and p2: "hooks_pass r BeforeStart" and p3: "hooks_pass r AfterStart"
    by (simp_all add: start_passes_def)
  define a1 where "a1 = a\<lparr>trace := trace a @ hook_events BeforeInitialize (hooks (registry a) BeforeInitialize)\<rparr>"
  have s1: "hooks_call BeforeInitialize False a = Resolved a1"
    unfolding a1_def by (rule hooks_call_pass [OF p0])
  have reg1: "registry (initializeEssential a1) = registry (initializeEssential a)"
    by (simp add: a1_def initializeEssential_def registerCommand_def emit_def)
  define a2 where "a2 = emit RegistryLoad ((initializeEssential a1)\<lparr>registry := r\<rparr>)"
  have s2: "do_registry_load E (initializeEssential a1) = Resolved a2"
    by (simp add: do_registry_load_def reg1 rl a2_def)
  have c2: "container a2 = container a"
    by (simp add: a2_def a1_def initializeEssential_def registerCommand_def emit_def)
  define a3 where "a3 = emit ContainerLoad (a2\<lparr>container := c\<rparr>)"
  have s3: "do_container_load E a2 = Resolved a3"
    by (simp add: do_container_load_def c2 cl a3_def)
  have r3: "registry a3 = r" by (simp add: a3_def a2_def emit_def)
  define a4 where "a4 = a3\<lparr>trace := trace a3 @ hook_events AfterInitialize (hooks r AfterInitialize)\<rparr>"
  have s4: "hooks_call AfterInitialize False a3 = Resolved a4"
    using hooks_call_pass [of a3 AfterInitialize] p1 by (simp add: r3 a4_def)
  have init: "initialize E a = Resolved a4"
    by (simp add: initialize_def s1 s2 s3 s4 await_simps)
  have r4: "registry a4 = r" by (simp add: a4_def r3)
  define a5 where "a5 = a4\<lparr>trace := trace a4 @ hook_events BeforeStart (hooks r BeforeStart)\<rparr>"
  have s5: "hooks_call BeforeStart False a4 = Resolved a5"
    using hooks_call_pass [of a4 BeforeStart] p2 by (simp add: r4 a5_def)
  define a6 where "a6 = (if isApiWorker a5 then start_transports (transports a5) a5 else a5)"
  have r6: "registry a6 = r" by (simp add: a6_def a5_def r4 start_transports_trace)
  define a7 where "a7 = a6\<lparr>trace := trace a6 @ hook_events AfterStart (hooks r AfterStart)\<rparr>"
  have s7: "hooks_call AfterStart False a6 = Resolved a7"
    using hooks_call_pass [of a6 AfterStart] p3 by (simp add: r6 a7_def)
  have "start E a = Resolved a7"
    by (simp add: start_def init s5 await_simps a6_def [symmetric] s7)
  moreover have "a7 = a\<lparr>trace := trace a @ start_events a r, registry := r, container := c\<rparr>"
    by (simp add: a7_def a6_def a5_def a4_def a3_def a2_def a1_def start_events_def isApiWorker_def
        start_transports_trace initializeEssential_def registerCommand_def emit_def)
  ultimately show ?thesis by simp
qed

lemma start_Resolved_passes:
  assumes "start E a = Resolved a'"
  shows "start_passes E a (registry a') (container a')"
proof -
  from assms [unfolded start_def] obtain a4 where
    init: "initialize E a = Resolved a4"
    and rest: "await (hooks_call BeforeStart False a4)
        (\<lambda>a. hooks_call AfterStart False (if isApiWorker a then start_transports (transports a) a else a)) = Resolved a'"
    by (blast dest: await_Resolved)
  from init [unfolded initialize_def] obtain a1 where
    s1: "hooks_call BeforeInitialize False a = Resolved a1"
    and i2: "await (do_registry_load E (initializeEssential a1))
        (\<lambda>a. await (do_container_load E a) (\<lambda>a. hooks_call AfterInitialize False a)) = Resolved a4"
    by (blast dest: await_Resolved)
  from i2 obtain a2 where
    s2: "do_registry_load E (initializeEssential a1) = Resolved a2"
    and i3: "await (do_container_load E a2) (\<lambda>a. hooks_call AfterInitialize False a) = Resolved a4"
    by (blast dest: await_Resolved)
  from i3 obtain a3 where
    s3: "do_container_load E a2 = Resolved a3" and s4: "hooks_call AfterInitialize False a3 = Resolved a4"
    by (blast dest: await_Resolved)
  from rest obtain a5 where
    s5: "hooks_call BeforeStart False a4 = Resolved a5"
    and s7: "hooks_call AfterStart False (if isApiWorker a5 then start_transports (transports a5) a5 else a5) = Resolved a'"
    by (blast dest: await_Resolved)
  let ?a6 = "if isApiWorker a5 then start_transports (transports a5) a5 else a5"
  from hooks_call_Resolved [OF s1] have p0: "hooks_pass (registry a) BeforeInitialize"
    and a1: "a1 = a\<lparr>trace := trace a @ hook_events BeforeInitialize (hooks (registry a) BeforeInitialize)\<rparr>"
    by simp_all
  have reg1: "registry (initializeEssential a1) = registry (initializeEssential a)"
    by (simp add: a1 initializeEssential_def registerCommand_def emit_def)
  from load_Resolved(1) [OF s2] obtain r where
    rl: "registry_load E (registry (initializeEssential a)) = Inr r"
    and a2: "a2 = emit RegistryLoad ((initializeEssential a1)\<lparr>registry := r\<rparr>)"
    unfolding reg1 by blast
  have c2: "container a2 = container a"
    by (simp add: a2 a1 initializeEssential_def registerCommand_def emit_def)
  from load_Resolved(2) [OF s3] obtain c where
    cl: "container_load E (container a) = Inr c" and a3: "a3 = emit ContainerLoad (a2\<lparr>container := c\<rparr>)"
    unfolding c2 by blast
  have r3: "registry a3 = r" and c3: "container a3 = c" by (simp_all add: a3 a2 emit_def)
  from hooks_call_Resolved [OF s4] have p1: "hooks_pass r AfterInitialize"
    and a4: "a4 = a3\<lparr>trace := trace a3 @ hook_events AfterInitialize (hooks (registry a3) AfterInitialize)\<rparr>"
    by (simp_all add: r3)
  have r4: "registry a4 = r" and c4: "container a4 = c" by (simp_all add: a4 r3 c3)
  from hooks_call_Resolved [OF s5] have p2: "hooks_pass r BeforeStart"
    and a5: "a5 = a4\<lparr>trace := trace a4 @ hook_events BeforeStart (hooks (registry a4) BeforeStart)\<rparr>"
    by (simp_all add: r4)
  have r6: "registry ?a6 = r" and c6: "container ?a6 = c"
    by (simp_all add: a5 r4 c4 start_transports_trace)
  from hooks_call_Resolved [OF s7] have p3: "hooks_pass (registry ?a6) AfterStart"
    and a': "a' = ?a6\<lparr>trace := trace ?a6 @ hook_events AfterStart (hooks (registry ?a6) AfterStart)\<rparr>"
    by simp_all
  have "registry a' = r" "container a' = c"
    by (subst a', simp add: r6 c6 del: if_split)+
  with p0 rl cl p1 p2 p3 show ?thesis unfolding r6 by (simp add: start_passes_def)
qed

lemmas example_defs = example_collaborators_def example_app_def

text \<open>
  C1. \<open>stop()\<close> runs the \<open>BeforeStop\<close> hooks in registration order, then (on an API
  worker) stops each transport, a rejection logged and not propagated, then the
  \<open>AfterStop\<close> hooks, then \<open>terminate()\<close>. \<open>terminate()\<close> runs the \<open>BeforeTerminate\<close>
  hooks in reverse registration order, then \<open>container.dispose()\<close>, then
  \<open>registry.clear()\<close>, then the \<open>AfterTerminate\<close> hooks (those the cleared registry holds)
  in reverse registration order.
\<close>

theorem stop_then_terminate_order:
  "stop E a =
     terminate E (a\<lparr>trace := trace a
                   @ hook_events BeforeStop (hooks (registry a) BeforeStop)
                   @ (if options_type a = Api then transport_stop_events (transports a) else [])
                   @ hook_events AfterStop (hooks (registry a) AfterStop)\<rparr>)
   \<and> terminate E a =
     Resolved (a\<lparr>trace := trace a
                  @ hook_events BeforeTerminate (rev (hooks (registry a) BeforeTerminate))
                  @ [ContainerDispose] @ map DisposerCalled (rev (container a)) @ [RegistryClear]
                  @ hook_events AfterTerminate (rev (hooks (registry_clear E (registry a)) AfterTerminate)),
                container := [],
                registry := registry_clear E (registry a)\<rparr>)"
  by (simp add: stop_result terminate_result)

text \<open>C1 at the example application: the whole trace of \<open>stop()\<close>.\<close>

theorem stop_then_terminate_order_witness:
  "trace (state_of (stop example_collaborators example_app)) =
     [HookCalled BeforeStop 1, TransportStop 1, LoggerError ''Transport stop error'',
      HookCalled BeforeTerminate 3, HookFailureLogged BeforeTerminate 3, HookCalled BeforeTerminate 2,
      ContainerDispose, DisposerCalled 11, DisposerCalled 10, RegistryClear,
      HookCalled AfterTerminate 5, HookCalled AfterTerminate 4]"
  using stop_then_terminate_order [of example_collaborators example_app]
  by (simp add: example_defs hook_events_def transport_stop_events_def terminate_result)

text \<open>
  C2 as stated fails: with a \<open>clear\<close> that keeps the hook bindings, the
  \<open>BeforeTerminate\<close> hook 2 of the example runs once in one \<open>terminate()\<close> and twice in two.
\<close>

theorem terminate_twice_counterexample:
  "length (filter (\<lambda>e. e = HookCalled BeforeTerminate 2)
     (trace (state_of (terminate example_collaborators example_app)))) = 1
   \<and> length (filter (\<lambda>e. e = HookCalled BeforeTerminate 2)
     (trace (state_of (terminate example_collaborators
        (state_of (terminate example_collaborators example_app)))))) = 2"
  by (simp add: example_defs hook_events_def terminate_result)

text \<open>
  C2, amended. \<open>terminate()\<close> has no guard. A second call finds nothing left to dispose,
  but it runs again, in reverse order, every \<open>BeforeTerminate\<close> hook the registry still
  holds after the first call, calls \<open>container.dispose()\<close> and \<open>registry.clear()\<close> again,
  and then runs every \<open>AfterTerminate\<close> hook still registered.
\<close>

theorem terminate_twice:
  "\<exists>a1 a2. terminate E a = Resolved a1 \<and> terminate E a1 = Resolved a2
     \<and> trace a2 = trace a1
          @ hook_events BeforeTerminate (rev (hooks (registry a1) BeforeTerminate))
          @ [ContainerDispose, RegistryClear]
          @ hook_events AfterTerminate (rev (hooks (registry_clear E (registry a1)) AfterTerminate))
     \<and> container a2 = [] \<and> container a1 = []
     \<and> registry a1 = registry_clear E (registry a)
     \<and> registry a2 = registry_clear E (registry a1)"
  by (simp add: terminate_result)

text \<open>C2, amended, at the example application.\<close>

theorem terminate_twice_witness:
  "\<exists>a1 a2. terminate example_collaborators example_app = Resolved a1
     \<and> terminate example_collaborators a1 = Resolved a2
     \<and> trace a2 = trace a1 @
         [HookCalled BeforeTerminate 3, HookFailureLogged BeforeTerminate 3, HookCalled BeforeTerminate 2,
          ContainerDispose, RegistryClear, HookCalled AfterTerminate 5, HookCalled AfterTerminate 4]"
  using terminate_twice [of example_collaborators example_app]
  by (simp add: example_defs hook_events_def terminate_result)

text \<open>
  C5 as stated fails: on the example application, \<open>start()\<close> after a completed
  \<open>start()\<close>, and \<open>start()\<close> after a completed \<open>stop()\<close>, are not rejected; each runs
  the whole start sequence again.
\<close>

theorem start_twice_counterexample:
  "start example_collaborators (state_of (start example_collaborators example_app))
     \<noteq> Rejected InvalidState (state_of (start example_collaborators example_app))
   \<and> trace (state_of (start example_collaborators (state_of (start example_collaborators example_app))))
     = trace (state_of (start example_collaborators example_app))
       @ [RegisterCommand APP_COMMAND ''task'', RegisterCommand APP_COMMAND ''registry'',
          RegistryLoad, ContainerLoad, TransportStart 1]
   \<and> trace (state_of (start example_collaborators (state_of (stop example_collaborators example_app))))
     = trace (state_of (stop example_collaborators example_app))
       @ [RegisterCommand APP_COMMAND ''task'', RegisterCommand APP_COMMAND ''registry'',
          RegistryLoad, ContainerLoad, TransportStart 1]"
  by (simp add: start_facts stop_result example_defs start_def initialize_def hooks_call_def await_simps
      initializeEssential_def registerCommand_def emit_def do_registry_load_def do_container_load_def
      isApiWorker_def hook_events_def transport_stop_events_def)

text \<open>
  C5, amended. The application keeps no lifecycle state and \<open>start()\<close> and \<open>stop()\<close>
  check no precondition: in whatever state they are called, neither rejects with
  \<open>InvalidState\<close>. \<open>start()\<close> rejects only with the error of a failing
  \<open>*Initialize\<close> or \<open>*Start\<close> hook or of a failing load. When none of them fails
  (every transport's \<open>start()\<close> settling, resolved or rejected) it resolves, having run
  its whole sequence (again, if it has run before): the trace grows
  by exactly the events of the start sequence, and the registry and the container are
  those the loads leave. It resolves in no other case.
\<close>

theorem lifecycle_checks_no_precondition:
  "start E a \<noteq> Rejected InvalidState s \<and>
   stop E a \<noteq> Rejected InvalidState s \<and>
   (\<forall>e s'. start E a = Rejected e s' \<longrightarrow> start_error e) \<and>
   (\<forall>r c. start_passes E a r c \<longrightarrow>
      start E a = Resolved (a\<lparr>trace := trace a @ start_events a r, registry := r, container := c\<rparr>)) \<and>
   (\<forall>a'. start E a = Resolved a' \<longrightarrow> start_passes E a (registry a') (container a'))"
proof (intro conjI allI impI)
  show "start E a \<noteq> Rejected InvalidState s" by (rule start_facts(2))
  show "stop E a \<noteq> Rejected InvalidState s" by (simp add: stop_result)
next
  fix e s' assume "start E a = Rejected e s'"
  then show "start_error e" by (rule start_rejects_with)
next
  fix r c assume "start_passes E a r c"
  then show "start E a = Resolved (a\<lparr>trace := trace a @ start_events a r, registry := r, container := c\<rparr>)"
    by (rule start_when_passes)
next
  fix a' assume "start E a = Resolved a'"
  then show "start_passes E a (registry a') (container a')" by (rule start_Resolved_passes)
qed

text \<open>
  C5, amended, at the example application after a completed \<open>stop()\<close>: nothing fails,
  and \<open>start()\<close> runs its whole sequence.
\<close>

theorem lifecycle_checks_no_precondition_witness:
  "start_passes example_collaborators (state_of (stop example_collaborators example_app))
     \<lparr>hooks = hooks (registry example_app), commands = [(APP_COMMAND, ''registry''), (APP_COMMAND, ''task'')]\<rparr> [] \<and>
   (\<exists>a'. start example_collaborators (state_of (stop example_collaborators example_app)) = Resolved a' \<and>
      trace a' = trace (state_of (stop example_collaborators example_app))
        @ [RegisterCommand APP_COMMAND ''task'', RegisterCommand APP_COMMAND ''registry'',
           RegistryLoad, ContainerLoad, TransportStart 1])"
proof -
  let ?a = "state_of (stop example_collaborators example_app)"
  let ?r = "\<lparr>hooks = hooks (registry example_app), commands = [(APP_COMMAND, ''registry''), (APP_COMMAND, ''task'')]\<rparr>"
  have p: "start_passes example_collaborators ?a ?r []"
    by (simp add: start_passes_def hooks_pass_def stop_result example_defs initializeEssential_def
        registerCommand_def emit_def)
  have e: "start_events ?a ?r =
      [RegisterCommand APP_COMMAND ''task'', RegisterCommand APP_COMMAND ''registry'',
       RegistryLoad, ContainerLoad, TransportStart 1]"
    by (simp add: start_events_def stop_result example_defs hook_events_def transport_start_events_def)
  from lifecycle_checks_no_precondition [of example_collaborators ?a ?a] p
  have "start example_collaborators ?a = Resolved (?a\<lparr>trace := trace ?a @ start_events ?a ?r, registry := ?r, container := []\<rparr>)"
    by blast
  then show ?thesis using p e by simp
qed

section \<open>Properties of the supervisor\<close>

lemma createWorker_facts:
  "fst (createWorker ty i opts s) =
     \<lparr>threadId = next_threadId s,
      workerData = \<lparr>wd_applicationPath = applicationPath (options s), wd_id = i, workerType = ty,
                    workerOptions = opts, hasTaskRunners = truthy (taskWorkers (options s)), isServer = True\<rparr>\<rparr>"
  "workers (snd (createWorker ty i opts s)) = workers s @ [fst (createWorker ty i opts s)]"
  "next_threadId (snd (createWorker ty i opts s)) = Suc (next_threadId s)"
  "posted (snd (createWorker ty i opts s)) = posted s"
  "logger (snd (createWorker ty i opts s)) = logger s"
  "exiting (snd (createWorker ty i opts s)) = exiting s"
  "process_exit (snd (createWorker ty i opts s)) = process_exit s"
  "options (snd (createWorker ty i opts s)) = options s"
  "items (taskRunners (snd (createWorker ty i opts s))) =
     (if ty = Task then items (taskRunners s) @ [fst (createWorker ty i opts s)] else items (taskRunners s))"
  by (simp_all add: createWorker_def Let_def pool_add_def)

lemma on_exit_graceful:
  "exit_code = 0 \<or> exiting s \<Longrightarrow>
   workers (on_exit w exit_code s) = removeAll w (workers s) \<and>
   posted (on_exit w exit_code s) = posted s \<and>
   next_threadId (on_exit w exit_code s) = next_threadId s \<and>
   exiting (on_exit w exit_code s) = exiting s \<and>
   process_exit (on_exit w exit_code s) = process_exit s \<and>
   items (taskRunners (on_exit w exit_code s)) =
     (if workerType (workerData w) = Task then removeAll w (items (taskRunners s)) else items (taskRunners s))"
  by (auto simp: on_exit_def Let_def log_def pool_remove_def)

lemma on_exit_crash:
  fixes w :: Worker and s :: ApplicationServer
  assumes "exit_code \<noteq> 0" and "\<not> exiting s"
  defines "r \<equiv> \<lparr>threadId = next_threadId s,
      workerData = \<lparr>wd_applicationPath = applicationPath (options s), wd_id = wd_id (workerData w),
                    workerType = workerType (workerData w), workerOptions = workerOptions (workerData w),
                    hasTaskRunners = truthy (taskWorkers (options s)), isServer = True\<rparr>\<rparr>"
  shows "workers (on_exit w exit_code s) = removeAll w (workers s) @ [r]"
    and "posted (on_exit w exit_code s) = posted s @ [(threadId r, Message Start None)]"
    and "next_threadId (on_exit w exit_code s) = Suc (next_threadId s)"
    and "exiting (on_exit w exit_code s) = exiting s"
    and "process_exit (on_exit w exit_code s) = process_exit s"
    and "items (taskRunners (on_exit w exit_code s)) =
     (if workerType (workerData w) = Task then removeAll w (items (taskRunners s)) @ [r] else items (taskRunners s))"
  using assms(1,2) unfolding r_def
  by (auto simp: on_exit_def Let_def log_def pool_remove_def createWorker_def postMessage_def pool_add_def)

text \<open>
  C3. When a worker exits with a non-zero code while the supervisor is not exiting, the
  \<open>exit\<close> handler creates a replacement with the same type, id and options and posts
  \<open>Start\<close> to it; when the code is zero, or the supervisor is exiting, it creates no
  worker and posts nothing.
\<close>

theorem crash_restart:
  "(exit_code \<noteq> 0 \<and> \<not> exiting s \<longrightarrow>
      (\<exists>r. workers (on_exit w exit_code s) = removeAll w (workers s) @ [r] \<and>
           threadId r = next_threadId s \<and>
           workerType (workerData r) = workerType (workerData w) \<and>
           wd_id (workerData r) = wd_id (workerData w) \<and>
           workerOptions (workerData r) = workerOptions (workerData w) \<and>
           posted (on_exit w exit_code s) = posted s @ [(threadId r, Message Start None)])) \<and>
   (exit_code = 0 \<or> exiting s \<longrightarrow>
      workers (on_exit w exit_code s) = removeAll w (workers s) \<and>
      posted (on_exit w exit_code s) = posted s \<and>
      next_threadId (on_exit w exit_code s) = next_threadId s)"
proof (intro conjI impI)
  assume a: "exit_code \<noteq> 0 \<and> \<not> exiting s"
  then have c: "exit_code \<noteq> 0" and e: "\<not> exiting s" by simp_all
  show "\<exists>r. workers (on_exit w exit_code s) = removeAll w (workers s) @ [r] \<and>
           threadId r = next_threadId s \<and>
           workerType (workerData r) = workerType (workerData w) \<and>
           wd_id (workerData r) = wd_id (workerData w) \<and>
           workerOptions (workerData r) = workerOptions (workerData w) \<and>
           posted (on_exit w exit_code s) = posted s @ [(threadId r, Message Start None)]"
    using on_exit_crash(1,2) [OF c e, of w] by (intro exI) (rule conjI, assumption, simp)
next
  assume "exit_code = 0 \<or> exiting s"
  from on_exit_graceful [OF this, of w]
  show "workers (on_exit w exit_code s) = removeAll w (workers s)"
    and "posted (on_exit w exit_code s) = posted s"
    and "next_threadId (on_exit w exit_code s) = next_threadId s" by simp_all
qed

lemma upt_2: "[0 ..< 2] = [0, Suc 0]" by (simp add: upt_rec)

lemma example_server_eval:
  "example_server =
   \<lparr>options = example_options,
    workers = [\<lparr>threadId = 1, workerData = \<lparr>wd_applicationPath = ''app.js'', wd_id = 0, workerType = Task, workerOptions = Some ''t0'', hasTaskRunners = True, isServer = True\<rparr>\<rparr>,
               \<lparr>threadId = 2, workerData = \<lparr>wd_applicationPath = ''app.js'', wd_id = 1, workerType = Task, workerOptions = Some ''t1'', hasTaskRunners = True, isServer = True\<rparr>\<rparr>,
               \<lparr>threadId = 3, workerData = \<lparr>wd_applicationPath = ''app.js'', wd_id = 0, workerType = Api, workerOptions = None, hasTaskRunners = True, isServer = True\<rparr>\<rparr>],
    taskRunners = \<lparr>items = [\<lparr>threadId = 1, workerData = \<lparr>wd_applicationPath = ''app.js'', wd_id = 0, workerType = Task, workerOptions = Some ''t0'', hasTaskRunners = True, isServer = True\<rparr>\<rparr>,
               \<lparr>threadId = 2, workerData = \<lparr>wd_applicationPath = ''app.js'', wd_id = 1, workerType = Task, workerOptions = Some ''t1'', hasTaskRunners = True, isServer = True\<rparr>\<rparr>], current = 0\<rparr>,
    exiting = False, logger = [], posted = [], next_threadId = 4, process_exit = None\<rparr>"
  by (simp add: example_server_def example_options_def createWorkers_def worker_count_def worker_options_def
      upt_2 createWorker_def new_ApplicationServer_def new_Pool_def pool_add_def truthy_def Let_def)

lemma postMessage_facts:
  "posted (postMessage w m s) = posted s @ [(threadId w, m)]"
  "workers (postMessage w m s) = workers s"
  "exiting (postMessage w m s) = exiting s"
  "process_exit (postMessage w m s) = process_exit s"
  "next_threadId (postMessage w m s) = next_threadId s"
  "logger (postMessage w m s) = logger s"
  "taskRunners (postMessage w m s) = taskRunners s"
  by (simp_all add: postMessage_def)

lemma signalled_all: "list_all (exits_on_stop env) ws \<Longrightarrow> signalled env ws = ws"
  by (induction ws) (auto simp: exits_on_stop_def)

lemma filter_removeAll: "filter P (removeAll w xs) = filter (\<lambda>v. v \<noteq> w \<and> P v) xs"
  by (induction xs) auto

lemma stop_loop_exiting:
  "exiting s \<Longrightarrow>
   posted (state_of (stop_loop env ws s)) = posted s @ map (\<lambda>w. (threadId w, Message Stop None)) (signalled env ws) \<and>
   process_exit (state_of (stop_loop env ws s)) = process_exit s \<and>
   next_threadId (state_of (stop_loop env ws s)) = next_threadId s \<and>
   exiting (state_of (stop_loop env ws s)) \<and>
   (list_all (exits_on_stop env) ws \<longrightarrow>
      stop_loop env ws s = Resolved (state_of (stop_loop env ws s)) \<and>
      workers (state_of (stop_loop env ws s)) = filter (\<lambda>v. v \<notin> set ws) (workers s)) \<and>
   (\<not> list_all (exits_on_stop env) ws \<longrightarrow> stop_loop env ws s = Pending (state_of (stop_loop env ws s)))"
proof (induction ws arbitrary: s)
  case Nil
  then show ?case by simp
next
  case (Cons w ws)
  show ?case
  proof (cases "exit_on_stop env (threadId w)")
    case None
    then show ?thesis using Cons.prems by (simp add: postMessage_facts exits_on_stop_def)
  next
    case (Some c)
    let ?s1 = "on_exit w c (postMessage w (Message Stop None) s)"
    have ex: "exiting (postMessage w (Message Stop None) s)" using Cons.prems by (simp add: postMessage_facts)
    note g = on_exit_graceful [OF disjI2 [OF ex], of w c]
    have e1: "exiting ?s1" using g ex by simp
    have w1: "workers ?s1 = removeAll w (workers s)" using g by (simp add: postMessage_facts)
    have f: "filter (\<lambda>v. v \<notin> set ws) (removeAll w (workers s)) = filter (\<lambda>v. v \<notin> set (w # ws)) (workers s)"
      by (simp add: filter_removeAll)
    from Cons.IH [OF e1] show ?thesis
      using g by (simp add: Some postMessage_facts exits_on_stop_def w1 f)
  qed
qed

lemma stop_begin_facts:
  "exiting (stop_begin s)" "posted (stop_begin s) = posted s" "workers (stop_begin s) = workers s"
  "process_exit (stop_begin s) = process_exit s" "next_threadId (stop_begin s) = next_threadId s"
  "logger (stop_begin s) = logger s @ [LogInfo ''Stopping application server...'']"
  by (simp_all add: stop_begin_def log_def)

lemma server_stop_cases:
  "(list_all (exits_on_stop env) (workers s) \<longrightarrow>
      (\<exists>s'. server_stop env s = Resolved s' \<and> \<not> exiting s' \<and> workers s' = [] \<and>
            posted s' = posted s @ map (\<lambda>w. (threadId w, Message Stop None)) (workers s) \<and>
            process_exit s' = process_exit s)) \<and>
   (\<not> list_all (exits_on_stop env) (workers s) \<longrightarrow>
      (\<exists>s'. server_stop env s = Pending s' \<and> exiting s' \<and>
            posted s' = posted s @ map (\<lambda>w. (threadId w, Message Stop None)) (signalled env (workers s)) \<and>
            process_exit s' = process_exit s))"
proof -
  define t where "t = state_of (stop_loop env (workers s) (stop_begin s))"
  note L = stop_loop_exiting [OF stop_begin_facts(1), of env "workers s" s, folded t_def, unfolded stop_begin_facts]
  have stop: "server_stop env s = stop_end (stop_loop env (workers s) (stop_begin s))"
    by (simp add: server_stop_def stop_begin_facts)
  show ?thesis
  proof (intro conjI impI)
    assume a: "list_all (exits_on_stop env) (workers s)"
    with L have r: "stop_loop env (workers s) (stop_begin s) = Resolved t"
      and w: "workers t = filter (\<lambda>v. v \<notin> set (workers s)) (workers s)" by simp_all
    have e: "filter (\<lambda>v. v \<notin> set (workers s)) (workers s) = []" by (simp add: filter_empty_conv)
    have "server_stop env s = Resolved (t\<lparr>exiting := False\<rparr>)"
      by (simp add: stop r stop_end_def await_def)
    moreover have "posted t = posted s @ map (\<lambda>w. (threadId w, Message Stop None)) (workers s)"
      using L a by (simp add: signalled_all)
    moreover have "process_exit t = process_exit s" using L by simp
    ultimately show "\<exists>s'. server_stop env s = Resolved s' \<and> \<not> exiting s' \<and> workers s' = [] \<and>
            posted s' = posted s @ map (\<lambda>w. (threadId w, Message Stop None)) (workers s) \<and>
            process_exit s' = process_exit s"
      using w e by simp
  next
    assume a: "\<not> list_all (exits_on_stop env) (workers s)"
    with L have r: "stop_loop env (workers s) (stop_begin s) = Pending t" by simp
    have "server_stop env s = Pending t"
      by (simp add: stop r stop_end_def await_def)
    then show "\<exists>s'. server_stop env s = Pending s' \<and> exiting s' \<and>
            posted s' = posted s @ map (\<lambda>w. (threadId w, Message Stop None)) (signalled env (workers s)) \<and>
            process_exit s' = process_exit s"
      using L by simp
  qed
qed

text \<open>C3 at the example supervisor: its first worker exits with code 1, and with code 0.\<close>

theorem crash_restart_witness:
  "(\<exists>r. workers (on_exit (hd (workers example_server)) 1 example_server) = tl (workers example_server) @ [r] \<and>
        threadId r = 4 \<and> workerType (workerData r) = Task \<and> wd_id (workerData r) = 0 \<and>
        workerOptions (workerData r) = Some ''t0'' \<and>
        posted (on_exit (hd (workers example_server)) 1 example_server) = [(4, Message Start None)]) \<and>
   workers (on_exit (hd (workers example_server)) 0 example_server) = tl (workers example_server) \<and>
   posted (on_exit (hd (workers example_server)) 0 example_server) = []"
  using crash_restart [of 1 example_server "hd (workers example_server)"]
    crash_restart [of 0 example_server "hd (workers example_server)"]
  by (simp add: example_server_eval on_exit_def Let_def log_def pool_remove_def createWorker_def
      pool_add_def postMessage_def truthy_def example_options_def)

lemma log_facts:
  "logger (log e s) = logger s @ [e]" "posted (log e s) = posted s" "workers (log e s) = workers s"
  "exiting (log e s) = exiting s" "process_exit (log e s) = process_exit s"
  "next_threadId (log e s) = next_threadId s" "taskRunners (log e s) = taskRunners s"
  "options (log e s) = options s"
  by (simp_all add: log_def)

lemma on_exit_logger: "prefix (logger s) (logger (on_exit w c s))"
  by (auto simp: on_exit_def Let_def log_def createWorker_def postMessage_def split: prod.splits)

lemma on_exit_process_exit: "process_exit (on_exit w c s) = process_exit s"
  by (auto simp: on_exit_def Let_def log_def createWorker_def postMessage_def split: prod.splits)

lemma stop_loop_logger: "prefix (logger s) (logger (state_of (stop_loop env ws s)))"
proof (induction ws arbitrary: s)
  case Nil
  then show ?case by simp
next
  case (Cons w ws)
  show ?case
  proof (cases "exit_on_stop env (threadId w)")
    case None
    then show ?thesis by (simp add: postMessage_facts)
  next
    case (Some c)
    have "prefix (logger s) (logger (on_exit w c (postMessage w (Message Stop None) s)))"
      using on_exit_logger [of "postMessage w (Message Stop None) s" w c] by (simp add: postMessage_facts)
    from prefix_order.trans [OF this Cons.IH [of "on_exit w c (postMessage w (Message Stop None) s)" ]]
    show ?thesis by (simp add: Some)
  qed
qed

lemma stop_end_state: "state_of (stop_end p) = (case p of Resolved s \<Rightarrow> s\<lparr>exiting := False\<rparr> | _ \<Rightarrow> state_of p)"
  by (cases p) (simp_all add: stop_end_def await_def)

lemma stop_end_fields:
  "logger (state_of (stop_end p)) = logger (state_of p)"
  "posted (state_of (stop_end p)) = posted (state_of p)"
  "workers (state_of (stop_end p)) = workers (state_of p)"
  "process_exit (state_of (stop_end p)) = process_exit (state_of p)"
  by (cases p; simp add: stop_end_def await_def)+

lemma createWorkers_process_exit: "process_exit (createWorkers ty w s) = process_exit s"
proof -
  have "process_exit (fold (\<lambda>i s. snd (createWorker ty i (worker_options w i) s)) is s) = process_exit s" for "is"
    by (induction "is" arbitrary: s) (simp_all add: createWorker_facts)
  then show ?thesis by (simp add: createWorkers_def)
qed

lemma spawn_workers_process_exit: "process_exit (spawn_workers s) = process_exit s"
  by (simp add: spawn_workers_def Let_def createWorkers_process_exit log_facts)

lemma first_failed_member: "first_failed env ws = Some (w, st) \<Longrightarrow> w \<in> set ws \<and> startup_of env (threadId w) = st"
  by (induction ws) (auto split: if_splits)

lemma await_ready_cases:
  "await_ready env ws s =
     (case first_failed env ws of
        None \<Rightarrow> Resolved s
      | Some (w, BecomesReady) \<Rightarrow> Resolved s
      | Some (w, OnlineMissed) \<Rightarrow> Pending s
      | Some (w, NeverReady) \<Rightarrow> Pending s
      | Some (w, ErrorAwaitingOnline err) \<Rightarrow> Rejected err (log (LogError err) s)
      | Some (w, ErrorAwaitingReady err) \<Rightarrow>
          Pending (state_of (stop_after_error env w (log (LogFatal err) (log (LogError err) s)))))"
  by (induction ws) (auto split: startup.splits)

text \<open>The un-awaited stop after a startup error.\<close>

lemma stop_after_error_facts:
  assumes "failed \<in> set (workers s)"
  shows "process_exit (state_of (stop_after_error env failed s)) = process_exit s"
    and "prefix (logger s @ [LogInfo ''Stopping application server...'']) (logger (state_of (stop_after_error env failed s)))"
    and "list_all (exits_on_stop env) (workers s) \<Longrightarrow>
           workers (state_of (stop_after_error env failed s)) = [] \<and>
           \<not> exiting (state_of (stop_after_error env failed s)) \<and>
           (\<exists>s'. stop_after_error env failed s = Resolved s') \<and>
           posted (state_of (stop_after_error env failed s)) =
             posted s @ map (\<lambda>w. (threadId w, Message Stop None))
               (if hd (workers s) = failed then workers s else hd (workers s) # removeAll failed (tl (workers s)))"
proof -
  let ?s0 = "stop_begin s"
  obtain w ws where ws: "workers s = w # ws" using assms by (cases "workers s") auto
  let ?p = "postMessage w (Message Stop None) ?s0"
  let ?s1 = "on_exit failed uncaught_exit_code ?p"
  have exp: "exiting ?p" by (simp add: postMessage_facts stop_begin_facts)
  note g1 = on_exit_graceful [OF disjI2 [OF exp], of failed uncaught_exit_code]
  have ex1: "exiting ?s1" using g1 exp by simp
  have w1: "workers ?s1 = removeAll failed (w # ws)" using g1 by (simp add: postMessage_facts stop_begin_facts ws)
  have p1: "posted ?s1 = posted s @ [(threadId w, Message Stop None)]"
    using g1 by (simp add: postMessage_facts stop_begin_facts)
  have pe1: "process_exit ?s1 = process_exit s" using g1 by (simp add: postMessage_facts stop_begin_facts)
  have l1: "prefix (logger s @ [LogInfo ''Stopping application server...'']) (logger ?s1)"
    using on_exit_logger [of ?p failed uncaught_exit_code] by (simp add: postMessage_facts stop_begin_facts)
  have unfold: "stop_after_error env failed s =
      (if w = failed then stop_end (stop_loop env ws ?s1)
       else (case exit_on_stop env (threadId w) of
               None \<Rightarrow> Pending ?s1
             | Some exit_code \<Rightarrow> stop_end (stop_loop env (removeAll failed ws) (on_exit w exit_code ?s1))))"
    by (simp add: stop_after_error_def stop_begin_facts ws Let_def)
  show "process_exit (state_of (stop_after_error env failed s)) = process_exit s"
  proof (cases "w = failed")
    case True
    then show ?thesis unfolding unfold using stop_loop_exiting [OF ex1, of env ws] pe1
      by (simp add: stop_end_fields)
  next
    case False
    show ?thesis
    proof (cases "exit_on_stop env (threadId w)")
      case None
      then show ?thesis unfolding unfold using False pe1 by simp
    next
      case (Some c)
      note g2 = on_exit_graceful [OF disjI2 [OF ex1], of w c]
      have ex2: "exiting (on_exit w c ?s1)" using g2 ex1 by simp
      show ?thesis unfolding unfold using False Some stop_loop_exiting [OF ex2, of env "removeAll failed ws"] g2 pe1
        by (simp add: stop_end_fields)
    qed
  qed
  show "prefix (logger s @ [LogInfo ''Stopping application server...'']) (logger (state_of (stop_after_error env failed s)))"
  proof (cases "w = failed")
    case True
    then show ?thesis unfolding unfold using prefix_order.trans [OF l1 stop_loop_logger [of ?s1 env ws]]
      by (simp add: stop_end_fields)
  next
    case False
    show ?thesis
    proof (cases "exit_on_stop env (threadId w)")
      case None
      then show ?thesis unfolding unfold using False l1 by simp
    next
      case (Some c)
      have "prefix (logger s @ [LogInfo ''Stopping application server...'']) (logger (on_exit w c ?s1))"
        using prefix_order.trans [OF l1 on_exit_logger [of ?s1 w c]] .
      from prefix_order.trans [OF this stop_loop_logger [of "on_exit w c ?s1" env "removeAll failed ws"]]
      show ?thesis unfolding unfold using False Some by (simp add: stop_end_fields)
    qed
  qed
  assume all: "list_all (exits_on_stop env) (workers s)"
  then have exw: "exits_on_stop env w" and allws: "list_all (exits_on_stop env) ws" by (simp_all add: ws)
  have allr: "list_all (exits_on_stop env) (removeAll failed ws)"
    using allws by (simp add: list_all_iff)
  show "workers (state_of (stop_after_error env failed s)) = [] \<and>
           \<not> exiting (state_of (stop_after_error env failed s)) \<and>
           (\<exists>s'. stop_after_error env failed s = Resolved s') \<and>
           posted (state_of (stop_after_error env failed s)) =
             posted s @ map (\<lambda>w. (threadId w, Message Stop None))
               (if hd (workers s) = failed then workers s else hd (workers s) # removeAll failed (tl (workers s)))"
  proof (cases "w = failed")
    case True
    note L = stop_loop_exiting [OF ex1, of env ws]
    from L allws obtain t where t: "stop_loop env ws ?s1 = Resolved t" by metis
    with L allws have tw: "workers t = filter (\<lambda>v. v \<notin> set ws) (workers ?s1)"
      and tp: "posted t = posted ?s1 @ map (\<lambda>w. (threadId w, Message Stop None)) ws"
      by (simp_all add: signalled_all)
    have e: "filter (\<lambda>v. v \<notin> set ws) (removeAll failed (w # ws)) = []"
      using True by (simp add: filter_removeAll filter_empty_conv)
    have r: "stop_after_error env failed s = Resolved (t\<lparr>exiting := False\<rparr>)"
      unfolding unfold using True t by (simp add: stop_end_def await_def)
    show ?thesis unfolding r using True tw tp w1 p1 e by (simp add: ws)
  next
    case False
    from exw obtain c where c: "exit_on_stop env (threadId w) = Some c"
      by (auto simp: exits_on_stop_def)
    let ?s2 = "on_exit w c ?s1"
    note g2 = on_exit_graceful [OF disjI2 [OF ex1], of w c]
    have ex2: "exiting ?s2" using g2 ex1 by simp
    have w2: "workers ?s2 = removeAll w (removeAll failed (w # ws))" using g2 w1 by simp
    have p2: "posted ?s2 = posted s @ [(threadId w, Message Stop None)]" using g2 p1 by simp
    note L = stop_loop_exiting [OF ex2, of env "removeAll failed ws"]
    from L allr obtain t where t: "stop_loop env (removeAll failed ws) ?s2 = Resolved t" by metis
    with L allr have tw: "workers t = filter (\<lambda>v. v \<notin> set (removeAll failed ws)) (workers ?s2)"
      and tp: "posted t = posted ?s2 @ map (\<lambda>w. (threadId w, Message Stop None)) (removeAll failed ws)"
      by (simp_all add: signalled_all)
    have e: "filter (\<lambda>v. v \<notin> set (removeAll failed ws)) (removeAll w (removeAll failed (w # ws))) = []"
      by (auto simp: filter_removeAll filter_empty_conv)
    have r: "stop_after_error env failed s = Resolved (t\<lparr>exiting := False\<rparr>)"
      unfolding unfold using False c t by (simp add: stop_end_def await_def)
    show ?thesis unfolding r using False tw tp w2 p2 e by (simp add: ws)
  qed
qed

lemmas server_example_defs = obedient_env_def stuck_env_def failing_env_def

text \<open>
  C4 as stated fails: when the first worker of the example never exits, \<open>stop()\<close> stays
  pending; the supervisor has posted that worker \<open>Stop\<close> and nothing else, and every
  worker is still in the set.
\<close>

theorem stop_waits_counterexample:
  "\<exists>s'. server_stop stuck_env example_server = Pending s' \<and>
        posted s' = [(1, Message Stop None)] \<and>
        map threadId (workers s') = [1, 2, 3]"
  by (simp add: example_server_eval server_stop_def stop_begin_def log_def stop_end_def await_def
      postMessage_def stuck_env_def)

text \<open>
  C4, amended. \<open>stop()\<close> has no timeout and terminates no worker: it posts \<open>Stop\<close> to
  the workers in turn and awaits each \<open>exit\<close>. It resolves when every worker exits, having
  posted \<open>Stop\<close> to each; otherwise it stays pending at the first worker that never exits,
  having posted \<open>Stop\<close> only up to that one. The shutdown timeout is the command line's:
  \<open>tryExit\<close> ends the process with code 0 whether \<open>stop()\<close> settles or not.
\<close>

theorem stop_awaits_every_exit:
  "(list_all (exits_on_stop env) (workers s) \<longrightarrow>
      (\<exists>s'. server_stop env s = Resolved s' \<and>
            posted s' = posted s @ map (\<lambda>w. (threadId w, Message Stop None)) (workers s))) \<and>
   (\<not> list_all (exits_on_stop env) (workers s) \<longrightarrow>
      (\<exists>s'. server_stop env s = Pending s' \<and>
            posted s' = posted s @ map (\<lambda>w. (threadId w, Message Stop None)) (signalled env (workers s)))) \<and>
   process_exit (tryExit env s) = Some 0"
  using server_stop_cases [of env s] by (auto simp: tryExit_def exitProcess_def)

text \<open>C4, amended, at the example supervisor with obedient and with stuck workers.\<close>

theorem stop_awaits_every_exit_witness:
  "(\<exists>s'. server_stop obedient_env example_server = Resolved s' \<and>
         posted s' = [(1, Message Stop None), (2, Message Stop None), (3, Message Stop None)]) \<and>
   (\<exists>s'. server_stop stuck_env example_server = Pending s' \<and> posted s' = [(1, Message Stop None)]) \<and>
   process_exit (tryExit stuck_env example_server) = Some 0"
  using stop_awaits_every_exit [of obedient_env example_server] stop_awaits_every_exit [of stuck_env example_server]
  by (simp add: example_server_eval server_example_defs exits_on_stop_def)

lemma spawn_example:
  "spawn_workers (new_ApplicationServer example_options) =
     example_server\<lparr>logger := [LogInfo ''Starting application server...'',
        LogDebug ''Spinning up task workers...'', LogDebug ''Spinning up task api workers...'']\<rparr>"
  by (simp add: spawn_workers_def Let_def log_facts example_server_eval
      new_ApplicationServer_def example_options_def createWorkers_def worker_count_def worker_options_def
      upt_2 createWorker_def new_Pool_def pool_add_def truthy_def log_def)

text \<open>
  C6 as stated fails: when the first worker of the example raises an error while
  \<open>start()\<close> awaits its \<open>Ready\<close> message, the supervisor logs it as fatal and posts
  \<open>Stop\<close> to every worker, but no exit code is set.
\<close>

theorem startup_error_counterexample:
  "process_exit (state_of (server_start failing_env (new_ApplicationServer example_options))) = None \<and>
   LogFatal ''boom'' \<in> set (logger (state_of (server_start failing_env (new_ApplicationServer example_options)))) \<and>
   posted (state_of (server_start failing_env (new_ApplicationServer example_options))) =
     [(1, Message Stop None), (2, Message Stop None), (3, Message Stop None)]"
  by (simp add: server_start_def spawn_example example_server_eval failing_env_def
      stop_after_error_def stop_begin_def log_def postMessage_def on_exit_def uncaught_exit_code_def
      pool_remove_def stop_end_def await_def Let_def)

text \<open>
  C6, amended. When a worker emits an error while \<open>start()\<close> awaits its \<open>Ready\<close> message
  (every worker before it in the set has delivered \<open>Ready\<close>, and \<open>start()\<close> has observed
  this worker's \<open>online\<close> event and registered \<open>onError\<close>), the supervisor logs the error
  at level fatal and calls \<open>stop()\<close>, and it does not end the process: the exit code is
  left as it was. If every worker exits once posted \<open>Stop\<close>, every worker other than the
  failed one is posted \<open>Stop\<close> and the set of workers ends empty.
\<close>

theorem startup_error_stops_workers:
  "first_failed env (workers (spawn_workers s)) = Some (w, ErrorAwaitingReady err) \<longrightarrow>
     LogFatal err \<in> set (logger (state_of (server_start env s))) \<and>
     LogInfo ''Stopping application server...'' \<in> set (logger (state_of (server_start env s))) \<and>
     process_exit (state_of (server_start env s)) = process_exit s \<and>
     (list_all (exits_on_stop env) (workers (spawn_workers s)) \<longrightarrow>
        workers (state_of (server_start env s)) = [] \<and>
        (\<forall>v \<in> set (workers (spawn_workers s)).
           v \<noteq> w \<longrightarrow> (threadId v, Message Stop None) \<in> set (posted (state_of (server_start env s)))))"
proof (intro impI)
  assume ff: "first_failed env (workers (spawn_workers s)) = Some (w, ErrorAwaitingReady err)"
  let ?s0 = "spawn_workers s"
  let ?s1 = "log (LogFatal err) (log (LogError err) ?s0)"
  let ?s' = "state_of (stop_after_error env w ?s1)"
  have mem: "w \<in> set (workers ?s1)" using first_failed_member [OF ff] by (simp add: log_facts)
  note F = stop_after_error_facts [OF mem, of env]
  have start: "state_of (server_start env s) = ?s'"
    by (simp add: server_start_def await_ready_cases ff)
  have pre: "prefix (logger ?s1 @ [LogInfo ''Stopping application server...'']) (logger ?s')" by (rule F(2))
  have fatal: "LogFatal err \<in> set (logger ?s')"
  proof -
    have "LogFatal err \<in> set (logger ?s1 @ [LogInfo ''Stopping application server...''])" by (simp add: log_facts)
    then show ?thesis using pre by (auto simp: prefix_def)
  qed
  have stopping: "LogInfo ''Stopping application server...'' \<in> set (logger ?s')"
  proof -
    have "LogInfo ''Stopping application server...'' \<in> set (logger ?s1 @ [LogInfo ''Stopping application server...''])"
      by simp
    then show ?thesis using pre by (auto simp: prefix_def)
  qed
  have pe: "process_exit ?s' = process_exit s"
    using F(1) by (simp add: log_facts spawn_workers_process_exit)
  have stopped: "workers ?s' = [] \<and>
      (\<forall>v \<in> set (workers ?s0). v \<noteq> w \<longrightarrow> (threadId v, Message Stop None) \<in> set (posted ?s'))"
    if all: "list_all (exits_on_stop env) (workers ?s0)"
  proof -
    define L where "L = (if hd (workers ?s0) = w then workers ?s0 else hd (workers ?s0) # removeAll w (tl (workers ?s0)))"
    from all have "list_all (exits_on_stop env) (workers ?s1)" by (simp add: log_facts)
    from F(3) [OF this] have w: "workers ?s' = []"
      and p: "posted ?s' = posted ?s1 @ map (\<lambda>w. (threadId w, Message Stop None)) L"
      by (simp_all add: L_def log_facts)
    have ne: "workers ?s0 \<noteq> []" using mem by (auto simp: log_facts)
    have "(threadId v, Message Stop None) \<in> set (posted ?s')"
      if "v \<in> set (workers ?s0)" "v \<noteq> w" for v
    proof -
      have "v \<in> set L" unfolding L_def using that ne by (cases "workers ?s0") auto
      then have "(threadId v, Message Stop None) \<in> set (map (\<lambda>w. (threadId w, Message Stop None)) L)"
        by simp
      then show ?thesis unfolding p by simp
    qed
    then show ?thesis using w by blast
  qed
  show "LogFatal err \<in> set (logger (state_of (server_start env s))) \<and>
     LogInfo ''Stopping application server...'' \<in> set (logger (state_of (server_start env s))) \<and>
     process_exit (state_of (server_start env s)) = process_exit s \<and>
     (list_all (exits_on_stop env) (workers (spawn_workers s)) \<longrightarrow>
        workers (state_of (server_start env s)) = [] \<and>
        (\<forall>v \<in> set (workers (spawn_workers s)).
           v \<noteq> w \<longrightarrow> (threadId v, Message Stop None) \<in> set (posted (state_of (server_start env s)))))"
    unfolding start using fatal stopping pe stopped by blast
qed

text \<open>C6, amended, at the example supervisor, whose first worker fails.\<close>

theorem startup_error_stops_workers_witness:
  "LogFatal ''boom'' \<in> set (logger (state_of (server_start failing_env (new_ApplicationServer example_options)))) \<and>
   process_exit (state_of (server_start failing_env (new_ApplicationServer example_options))) = None \<and>
   workers (state_of (server_start failing_env (new_ApplicationServer example_options))) = [] \<and>
   (2, Message Stop None) \<in> set (posted (state_of (server_start failing_env (new_ApplicationServer example_options)))) \<and>
   (3, Message Stop None) \<in> set (posted (state_of (server_start failing_env (new_ApplicationServer example_options))))"
proof -
  let ?w1 = "\<lparr>threadId = 1, workerData = \<lparr>wd_applicationPath = ''app.js'', wd_id = 0, workerType = Task,
      workerOptions = Some ''t0'', hasTaskRunners = True, isServer = True\<rparr>\<rparr>"
  let ?w2 = "\<lparr>threadId = 2, workerData = \<lparr>wd_applicationPath = ''app.js'', wd_id = 1, workerType = Task,
      workerOptions = Some ''t1'', hasTaskRunners = True, isServer = True\<rparr>\<rparr>"
  let ?w3 = "\<lparr>threadId = 3, workerData = \<lparr>wd_applicationPath = ''app.js'', wd_id = 0, workerType = Api,
      workerOptions = None, hasTaskRunners = True, isServer = True\<rparr>\<rparr>"
  let ?S = "spawn_workers (new_ApplicationServer example_options)"
  let ?R = "state_of (server_start failing_env (new_ApplicationServer example_options))"
  have ws: "workers ?S = [?w1, ?w2, ?w3]" by (simp add: spawn_example example_server_eval)
  have ff: "first_failed failing_env (workers ?S) = Some (?w1, ErrorAwaitingReady ''boom'')"
    unfolding ws by (simp add: failing_env_def)
  have all: "list_all (exits_on_stop failing_env) (workers ?S)"
    unfolding ws by (simp add: failing_env_def exits_on_stop_def)
  have pe: "process_exit (new_ApplicationServer example_options) = None"
    by (simp add: new_ApplicationServer_def)
  from startup_error_stops_workers [of failing_env "new_ApplicationServer example_options" ?w1 "''boom''"] ff all
  have r: "LogFatal ''boom'' \<in> set (logger ?R)"
    "process_exit ?R = process_exit (new_ApplicationServer example_options)"
    "workers ?R = []"
    and p: "\<forall>v \<in> set (workers ?S). v \<noteq> ?w1 \<longrightarrow> (threadId v, Message Stop None) \<in> set (posted ?R)"
    by blast+
  from p have "(threadId ?w2, Message Stop None) \<in> set (posted ?R)" "(threadId ?w3, Message Stop None) \<in> set (posted ?R)"
    unfolding ws by simp_all
  then have "(2, Message Stop None) \<in> set (posted ?R)" "(3, Message Stop None) \<in> set (posted ?R)" by simp_all
  with r pe show ?thesis by simp
qed

lemma pool_next_Some:
  "pool_next p = Some (x, p') \<Longrightarrow> x \<in> set (items p) \<and> items p' = items p \<and>
     x = items p ! (current p mod length (items p)) \<and> current p' = Suc (current p mod length (items p))"
proof -
  assume a: "pool_next p = Some (x, p')"
  then have ne: "items p \<noteq> []" by (auto simp: pool_next_def split: if_splits)
  then have "current p mod length (items p) < length (items p)" by simp
  then have "items p ! (current p mod length (items p)) \<in> set (items p)" by (rule nth_mem)
  with a ne show ?thesis by (auto simp: pool_next_def)
qed

lemma pool_next_nonempty:
  "items p \<noteq> [] \<Longrightarrow> \<exists>p'. pool_next p = Some (items p ! (current p mod length (items p)), p')
     \<and> items p' = items p \<and> current p' = Suc (current p mod length (items p))"
  by (simp add: pool_next_def)

lemma next_many_cyclic:
  "items p \<noteq> [] \<Longrightarrow>
   next_many k p = map (\<lambda>j. items p ! ((current p + j) mod length (items p))) [0 ..< k]"
proof (induction k arbitrary: p)
  case 0
  then show ?case by simp
next
  case (Suc k)
  let ?n = "length (items p)"
  from pool_next_nonempty [OF Suc.prems] obtain p' where
    nx: "pool_next p = Some (items p ! (current p mod ?n), p')"
    and it: "items p' = items p" and cu: "current p' = Suc (current p mod ?n)" by blast
  have ne: "items p' \<noteq> []" using it Suc.prems by simp
  have step: "(Suc (current p mod ?n) + j) mod ?n = (current p + Suc j) mod ?n" for j
    by (metis add_Suc add_Suc_right mod_add_left_eq)
  have "next_many (Suc k) p = items p ! (current p mod ?n) # next_many k p'"
    by (simp add: nx)
  also have "next_many k p' = map (\<lambda>j. items p ! ((current p + Suc j) mod ?n)) [0 ..< k]"
    using Suc.IH [OF ne] unfolding it cu step .
  also have "items p ! (current p mod ?n) # map (\<lambda>j. items p ! ((current p + Suc j) mod ?n)) [0 ..< k]
      = map (\<lambda>j. items p ! ((current p + j) mod ?n)) [0 ..< Suc k]"
    by (simp only: map_Suc_upt [symmetric] upt_conv_Cons [of 0 "Suc k"] list.map map_map o_def) simp
  finally show ?case .
qed

lemma on_exit_retired:
  assumes "retired tid s"
  shows "retired tid (on_exit w c s) \<and> (\<exists>new. posted (on_exit w c s) = posted s @ new \<and> tid \<notin> fst ` set new)"
proof (cases "c = 0 \<or> exiting s")
  case True
  from on_exit_graceful [OF True, of w] assms show ?thesis
    by (auto simp: retired_def)
next
  case False
  then have c: "c \<noteq> 0" and e: "\<not> exiting s" by simp_all
  from on_exit_crash [OF c e, of w] assms show ?thesis
    by (auto simp: retired_def)
qed

lemma on_ExecuteInvoke_retired:
  assumes "retired tid s"
  shows "retired tid (on_ExecuteInvoke payload s) \<and>
    (\<exists>new. posted (on_ExecuteInvoke payload s) = posted s @ new \<and> tid \<notin> fst ` set new)"
proof (cases "pool_next (taskRunners s)")
  case None
  then show ?thesis using assms by (simp add: on_ExecuteInvoke_def)
next
  case (Some a)
  obtain x p' where a: "a = (x, p')" by (cases a)
  from pool_next_Some [OF Some [unfolded a]] have x: "x \<in> set (items (taskRunners s))"
    and it: "items p' = items (taskRunners s)" by blast+
  from x assms have "threadId x \<noteq> tid" by (auto simp: retired_def)
  then show ?thesis using assms it
    by (simp add: on_ExecuteInvoke_def Some a postMessage_def retired_def)
qed

lemma handle_retired:
  "retired tid s \<Longrightarrow> retired tid (handle ev s) \<and> (\<exists>new. posted (handle ev s) = posted s @ new \<and> tid \<notin> fst ` set new)"
  by (cases ev) (simp_all add: on_exit_retired on_ExecuteInvoke_retired)

lemma run_retired:
  "retired tid s \<Longrightarrow> retired tid (run evs s) \<and> (\<exists>new. posted (run evs s) = posted s @ new \<and> tid \<notin> fst ` set new)"
proof (induction evs arbitrary: s)
  case Nil
  then show ?case by (simp add: run_def)
next
  case (Cons ev evs)
  from handle_retired [OF Cons.prems, of ev] obtain n1 where
    r1: "retired tid (handle ev s)" and p1: "posted (handle ev s) = posted s @ n1" and t1: "tid \<notin> fst ` set n1"
    by blast
  from Cons.IH [OF r1] obtain n2 where
    r2: "retired tid (run evs (handle ev s))" and p2: "posted (run evs (handle ev s)) = posted (handle ev s) @ n2"
    and t2: "tid \<notin> fst ` set n2" by blast
  have "run (ev # evs) s = run evs (handle ev s)" by (simp add: run_def)
  moreover have "posted (run evs (handle ev s)) = posted s @ (n1 @ n2)" using p1 p2 by simp
  moreover have "tid \<notin> fst ` set (n1 @ n2)" using t1 t2 by auto
  ultimately show ?case using r2 by metis
qed

lemma exit_retires:
  assumes wf: "well_formed s" and mem: "w \<in> set (workers s)" and task: "workerType (workerData w) = Task"
  shows "retired (threadId w) (on_exit w c s) \<and>
     (\<exists>new. posted (on_exit w c s) = posted s @ new \<and> threadId w \<notin> fst ` set new)"
proof -
  from wf mem have lt: "threadId w < next_threadId s" by (auto simp: well_formed_def list_all_iff)
  have other: "threadId v \<noteq> threadId w" if "v \<in> set (items (taskRunners s))" "v \<noteq> w" for v
  proof -
    from wf that have "v \<in> set (workers s)" by (auto simp: well_formed_def list_all_iff)
    with wf mem that(2) show ?thesis
      by (auto simp: well_formed_def distinct_map inj_on_def)
  qed
  have nomem: "threadId w \<notin> threadId ` set (removeAll w (items (taskRunners s)))"
  proof
    assume "threadId w \<in> threadId ` set (removeAll w (items (taskRunners s)))"
    then obtain v where v: "v \<in> set (removeAll w (items (taskRunners s)))" and t: "threadId w = threadId v"
      by (rule imageE)
    from v have "v \<in> set (items (taskRunners s))" "v \<noteq> w" by simp_all
    from other [OF this] t show False by simp
  qed
  show ?thesis
  proof (cases "c = 0 \<or> exiting s")
    case True
    note g = on_exit_graceful [OF True, of w]
    have "retired (threadId w) (on_exit w c s)"
      unfolding retired_def using g lt task nomem by simp
    moreover have "posted (on_exit w c s) = posted s @ []" using g by simp
    ultimately show ?thesis by (metis empty_iff image_empty list.set(1))
  next
    case False
    then have c: "c \<noteq> 0" and e: "\<not> exiting s" by simp_all
    note g = on_exit_crash [OF c e, of w]
    have "retired (threadId w) (on_exit w c s)"
      unfolding retired_def using g(3,6) lt task nomem by simp
    moreover have "threadId w \<notin> fst ` set [(next_threadId s, Message Start None)]" using lt by simp
    moreover have "posted (on_exit w c s) = posted s @ [(next_threadId s, Message Start None)]"
      using g(2) by simp
    ultimately show ?thesis by blast
  qed
qed

lemma well_formed_new: "well_formed (new_ApplicationServer opts)"
  by (simp add: well_formed_def new_ApplicationServer_def new_Pool_def)

lemma well_formed_createWorker: "well_formed s \<Longrightarrow> well_formed (snd (createWorker ty i opts s))"
  unfolding well_formed_def createWorker_facts
  by (auto simp: list_all_iff createWorker_facts(1))

lemma well_formed_createWorkers: "well_formed s \<Longrightarrow> well_formed (createWorkers ty w s)"
proof -
  have "well_formed s \<Longrightarrow> well_formed (fold (\<lambda>i s. snd (createWorker ty i (worker_options w i) s)) is s)" for "is"
    by (induction "is" arbitrary: s) (simp_all add: well_formed_createWorker)
  then show "well_formed s \<Longrightarrow> well_formed (createWorkers ty w s)" by (simp add: createWorkers_def)
qed

lemma well_formed_on_exit: "well_formed s \<Longrightarrow> well_formed (on_exit w c s)"
proof (cases "c = 0 \<or> exiting s")
  case True
  assume "well_formed s"
  with on_exit_graceful [OF True, of w] show ?thesis
    by (auto simp: well_formed_def list_all_iff distinct_map_filter removeAll_filter_not_eq)
next
  case False
  assume wf: "well_formed s"
  from False have c: "c \<noteq> 0" and e: "\<not> exiting s" by simp_all
  from on_exit_crash [OF c e, of w] wf show ?thesis
    by (auto simp: well_formed_def list_all_iff distinct_map_filter removeAll_filter_not_eq)
qed

lemma well_formed_handle: "well_formed s \<Longrightarrow> well_formed (handle ev s)"
proof (cases ev)
  case (WorkerExit w c)
  assume "well_formed s"
  then show ?thesis by (simp add: WorkerExit well_formed_on_exit)
next
  case (Invoke payload)
  assume wf: "well_formed s"
  show ?thesis
  proof (cases "pool_next (taskRunners s)")
    case None
    then show ?thesis using wf by (simp add: Invoke on_ExecuteInvoke_def)
  next
    case (Some a)
    obtain x p' where a: "a = (x, p')" by (cases a)
    from pool_next_Some [OF Some [unfolded a]] have "items p' = items (taskRunners s)" by blast
    then show ?thesis using wf
      by (simp add: Invoke on_ExecuteInvoke_def Some a postMessage_def well_formed_def)
  qed
qed

text \<open>
  C7. An \<open>ExecuteInvoke\<close> message is posted, with its payload, to the task worker that
  \<open>next()\<close> of the pool \<open>taskRunners\<close> returns; successive calls of \<open>next()\<close> return the
  members in cyclic order; and once a task worker of a well-formed supervisor has exited
  it is no longer in the pool and no later message is posted to it, whatever events follow.
\<close>

theorem invoke_round_robin:
  "(items (taskRunners s) \<noteq> [] \<longrightarrow>
      (\<exists>worker p. pool_next (taskRunners s) = Some (worker, p) \<and>
         worker \<in> set (items (taskRunners s)) \<and>
         on_ExecuteInvoke payload s =
           postMessage worker (Message ExecuteInvoke (Some payload)) (s\<lparr>taskRunners := p\<rparr>))) \<and>
   (items q \<noteq> [] \<longrightarrow>
      next_many k q = map (\<lambda>j. items q ! ((current q + j) mod length (items q))) [0 ..< k]) \<and>
   (well_formed s \<and> w \<in> set (workers s) \<and> workerType (workerData w) = Task \<longrightarrow>
      w \<notin> set (items (taskRunners (run evs (on_exit w exit_code s)))) \<and>
      (\<exists>new. posted (run evs (on_exit w exit_code s)) = posted s @ new \<and> threadId w \<notin> fst ` set new))"
proof (intro conjI impI)
  assume ne: "items (taskRunners s) \<noteq> []"
  from pool_next_nonempty [OF ne] obtain p where
    nx: "pool_next (taskRunners s) = Some (items (taskRunners s) ! (current (taskRunners s) mod length (items (taskRunners s))), p)"
    by blast
  from pool_next_Some [OF nx] have "items (taskRunners s) ! (current (taskRunners s) mod length (items (taskRunners s))) \<in> set (items (taskRunners s))"
    by blast
  with nx show "\<exists>worker p. pool_next (taskRunners s) = Some (worker, p) \<and>
         worker \<in> set (items (taskRunners s)) \<and>
         on_ExecuteInvoke payload s =
           postMessage worker (Message ExecuteInvoke (Some payload)) (s\<lparr>taskRunners := p\<rparr>)"
    by (intro exI [of _ "items (taskRunners s) ! (current (taskRunners s) mod length (items (taskRunners s)))"] exI [of _ p])
       (simp add: on_ExecuteInvoke_def)
next
  assume "items q \<noteq> []"
  then show "next_many k q = map (\<lambda>j. items q ! ((current q + j) mod length (items q))) [0 ..< k]"
    by (rule next_many_cyclic)
next
  assume a: "well_formed s \<and> w \<in> set (workers s) \<and> workerType (workerData w) = Task"
  then have wf: "well_formed s" and mem: "w \<in> set (workers s)" and task: "workerType (workerData w) = Task"
    by simp_all
  from exit_retires [OF wf mem task, of exit_code] obtain n1 where
    r1: "retired (threadId w) (on_exit w exit_code s)" and p1: "posted (on_exit w exit_code s) = posted s @ n1"
    and t1: "threadId w \<notin> fst ` set n1" by blast
  from run_retired [OF r1, of evs] obtain n2 where
    r2: "retired (threadId w) (run evs (on_exit w exit_code s))"
    and p2: "posted (run evs (on_exit w exit_code s)) = posted (on_exit w exit_code s) @ n2"
    and t2: "threadId w \<notin> fst ` set n2" by blast
  from r2 show "w \<notin> set (items (taskRunners (run evs (on_exit w exit_code s))))"
    by (auto simp: retired_def)
  have "posted (run evs (on_exit w exit_code s)) = posted s @ (n1 @ n2)" using p1 p2 by simp
  moreover have "threadId w \<notin> fst ` set (n1 @ n2)" using t1 t2 by auto
  ultimately show "\<exists>new. posted (run evs (on_exit w exit_code s)) = posted s @ new \<and> threadId w \<notin> fst ` set new"
    by blast
qed

lemma well_formed_example: "well_formed example_server"
  unfolding example_server_def by (intro well_formed_createWorkers well_formed_new)

text \<open>C7 at the example supervisor, before and after its first task worker exits.\<close>

theorem invoke_round_robin_witness:
  "map threadId (next_many 5 (taskRunners example_server)) = [1, 2, 1, 2, 1] \<and>
   map fst (posted (run [Invoke ''a'', Invoke ''b'', Invoke ''c''] example_server)) = [1, 2, 1] \<and>
   map fst (posted (run [Invoke ''a'', Invoke ''b'', Invoke ''c'']
              (on_exit (hd (workers example_server)) 0 example_server))) = [2, 2, 2]"
  using invoke_round_robin [where s = example_server and q = "taskRunners example_server" and k = 5
      and w = "hd (workers example_server)" and evs = "[Invoke ''a'', Invoke ''b'', Invoke ''c'']"
      and exit_code = 0 and payload = "''a''"]
  by (simp add: example_server_eval run_def on_ExecuteInvoke_def pool_next_def postMessage_def on_exit_def
      Let_def log_def pool_remove_def eval_nat_numeral)

end
